theory Spec2Isabelle
  imports Complex_Main
begin

section \<open>Values supplied by the JavaScript platform\<close>

text \<open>
  The chat component and the admin console are TypeScript running in a browser.
  Strings are modelled as \<^typ>\<open>string\<close>; the line break \<open>'\n'\<close> is the character
  \<open>0x0A\<close>. A value produced by \<open>JSON.parse\<close> is a \<open>json\<close>; \<open>undefined\<close> (a property
  that is absent) is \<open>None\<close> of \<open>json option\<close>. Numbers are restricted to integers.
\<close>

datatype json =
    JNull
  | JBool bool
  | JNum int
  | JStr string
  | JArr "json list"
  | JObj "(string \<times> json) list"

text \<open>
  \<open>JSON.parse\<close>, the string conversion applied by \<open>+=\<close> to a value that is not a
  string, and \<open>String.prototype.trim\<close> belong to the platform and are parameters of the
  model. \<open>JSON_parse\<close> returns \<open>None\<close> where the platform throws a \<open>SyntaxError\<close>.
  \<open>ToString\<close> returns \<open>None\<close> where the conversion throws a \<open>TypeError\<close>: it does for
  an object with a property \<open>toString\<close> of its own, which after \<open>JSON.parse\<close> is never a
  function, and for an array that holds such an object.
\<close>

record platform =
  JSON_parse :: "string \<Rightarrow> json option"
  ToString :: "json option \<Rightarrow> string option"
  String_trim :: "string \<Rightarrow> string"

datatype exn =
    SyntaxError
  | TypeError
  | Error "json option"
  | HttpError nat
  | NoReader
  | NetworkError

text \<open>
  \<open>property data k\<close> is the property read \<open>data.k\<close> on a value other than \<open>null\<close>, for
  the keys the source reads (\<open>type\<close>, \<open>sources\<close>, \<open>content\<close>, \<open>error\<close>, \<open>results\<close>,
  \<open>status\<close>): none of them is a built-in property of a string, a number, a boolean or an
  array. Reading a property of \<open>null\<close> throws a \<open>TypeError\<close>; the callers test for
  \<open>JNull\<close> at the first read.
\<close>

fun property :: "json \<Rightarrow> string \<Rightarrow> json option" where
  "property (JObj kvs) k = map_of kvs k"
| "property _ k = None"

fun truthy :: "json option \<Rightarrow> bool" where
  "truthy None = False"
| "truthy (Some JNull) = False"
| "truthy (Some (JBool b)) = b"
| "truthy (Some (JNum n)) = (n \<noteq> 0)"
| "truthy (Some (JStr s)) = (s \<noteq> [])"
| "truthy (Some (JArr xs)) = True"
| "truthy (Some (JObj kvs)) = True"

text \<open>\<open>v || []\<close>\<close>

definition or_empty_array :: "json option \<Rightarrow> json" where
  "or_empty_array v = (if truthy v then the v else JArr [])"

text \<open>
  The right operand of \<open>accumulatedContent += data.content\<close> as a string; \<open>None\<close> when
  the conversion throws.
\<close>

definition concat_operand :: "platform \<Rightarrow> json option \<Rightarrow> string option" where
  "concat_operand P v = (case v of Some (JStr t) \<Rightarrow> Some t | _ \<Rightarrow> ToString P v)"

text \<open>Decimal rendering of a non-negative integer, as a template literal prints it.\<close>

function decimal :: "nat \<Rightarrow> string" where
  "decimal n =
     (if n < 10 then [char_of (48 + n)]
      else decimal (n div 10) @ [char_of (48 + n mod 10)])"
  by pat_completeness auto
termination
  by (relation "measure id") auto

declare decimal.simps [simp del]

section \<open>The chat component (frontend/src/components/Chat/index.tsx)\<close>

datatype role = User | Assistant

text \<open>
  \<open>interface Message\<close>. The field \<open>id\<close> is \<open>msg_id\<close> here; the optional fields
  \<open>isStreaming\<close> and \<open>sources\<close> are options. The decoder never looks inside a
  \<open>Source\<close>, so a source list is kept as the \<open>json\<close> that was received.
\<close>

record message =
  msg_id :: string
  content :: string
  role :: role
  timestamp :: nat
  isStreaming :: "bool option"
  sources :: "json option"

datatype toast = Success string | Failure string

text \<open>
  An \<open>event\<close> names the branch of the dispatch on \<open>data.type\<close> that was taken, with
  the payload the branch read.
\<close>

datatype event =
    EvSources json
  | EvSourcesUpdate json
  | EvContent "json option"
  | EvDone
  | EvError "json option"

text \<open>
  The functions \<open>handleSendMessage\<close> hands to \<open>setMessages\<close>: those of lines 73 and 85
  (\<open>Append\<close>), of line 143 (\<open>ShowSources\<close>), of line 150 (\<open>ShowContent\<close>), of line 161
  (\<open>ShowDone\<close>) and of line 185 (\<open>ShowFallback\<close>). React does not run such a function
  at the call: it queues it, and runs the queue when it next renders the component. The
  functions of lines 143 and 150 are closures over the locals \<open>sources\<close> and
  \<open>accumulatedContent\<close>, which are declared with \<open>let\<close> and assigned in the loop: they
  show the values these locals have when React runs them, not the values at the call.
  The string is \<open>assistantMessageId\<close>, a constant of the call.
\<close>

datatype updater =
    Append message
  | ShowSources string
  | ShowContent string
  | ShowDone string
  | ShowFallback string

text \<open>
  The state in scope while \<open>handleSendMessage\<close> runs: the component state
  (\<open>messages\<close> as React last rendered it, \<open>isLoading\<close>), the updaters queued by
  \<open>setMessages\<close> and not yet run (\<open>pending\<close>), the toasts shown, and the three locals
  of lines 114-116 (\<open>accumulatedContent\<close>, \<open>sources\<close> as \<open>cur_sources\<close>, \<open>buffer\<close>).
  \<open>events\<close> is a history variable: the branches taken so far, in order. The model
  follows one call of the handler: the updaters pending are those of this call.
\<close>

record state =
  messages :: "message list"
  pending :: "updater list"
  isLoading :: bool
  toasts :: "toast list"
  accumulatedContent :: string
  cur_sources :: json
  buffer :: string
  events :: "event list"

text \<open>\<open>prev.map(msg => msg.id === assistantMessageId ? f(msg) : msg)\<close>\<close>

definition update_assistant :: "string \<Rightarrow> (message \<Rightarrow> message) \<Rightarrow> message list \<Rightarrow> message list" where
  "update_assistant aid f prev = map (\<lambda>msg. if msg_id msg = aid then f msg else msg) prev"

text \<open>An updater run on the messages \<open>prev\<close>, the locals read from the state \<open>s\<close>.\<close>

fun run_updater :: "state \<Rightarrow> updater \<Rightarrow> message list \<Rightarrow> message list" where
  "run_updater s (Append m) prev = prev @ [m]"
| "run_updater s (ShowSources aid) prev =
     update_assistant aid (\<lambda>msg. msg\<lparr>sources := Some (cur_sources s)\<rparr>) prev"
| "run_updater s (ShowContent aid) prev =
     update_assistant aid
       (\<lambda>msg. msg\<lparr>content := accumulatedContent s, isStreaming := Some True,
          sources := Some (cur_sources s)\<rparr>) prev"
| "run_updater s (ShowDone aid) prev =
     update_assistant aid (\<lambda>msg. msg\<lparr>isStreaming := Some False\<rparr>) prev"
| "run_updater s (ShowFallback aid) prev =
     update_assistant aid
       (\<lambda>msg. msg\<lparr>content := ''Sorry, I encountered an error. Please try again.'',
          isStreaming := Some False\<rparr>) prev"

text \<open>
  A render: React runs the queued updaters in the order of their calls, each on the result
  of the one before, and the outcome is the new \<open>messages\<close>.
\<close>

definition render :: "state \<Rightarrow> state" where
  "render s = s\<lparr>messages := fold (run_updater s) (pending s) (messages s), pending := []\<rparr>"

definition newline :: char where
  "newline = CHR 0x0A"

text \<open>\<open>buffer.split('\n')\<close>: never empty; the empty string splits to one empty segment.\<close>

fun split_nl :: "string \<Rightarrow> string list" where
  "split_nl [] = [[]]"
| "split_nl (c # cs) =
     (if c = newline then [] # split_nl cs
      else (case split_nl cs of [] \<Rightarrow> [[c]] | l # ls \<Rightarrow> (c # l) # ls))"

text \<open>\<open>lines.pop()\<close>: the last element (\<open>undefined\<close> on an empty array) and the rest.\<close>

definition pop :: "'a list \<Rightarrow> 'a option \<times> 'a list" where
  "pop xs = (if xs = [] then (None, []) else (Some (last xs), butlast xs))"

text \<open>\<open>x || ''\<close> on a string or \<open>undefined\<close>\<close>

definition or_empty_string :: "string option \<Rightarrow> string" where
  "or_empty_string x = (case x of None \<Rightarrow> [] | Some t \<Rightarrow> if t = [] then [] else t)"

text \<open>\<open>line.startsWith('data: ')\<close>\<close>

definition startsWith :: "string \<Rightarrow> string \<Rightarrow> bool" where
  "startsWith line p = (take (length p) line = p)"

text \<open>
  The body of the \<open>try\<close> of lines 133-171: the exception thrown, if any, and the state
  at that point. \<open>JSON.parse\<close> throws a \<open>SyntaxError\<close> on text that is not JSON,
  \<open>data.type\<close> throws a \<open>TypeError\<close> when \<open>data\<close> is \<open>null\<close>, \<open>+=\<close> at line 149
  throws a \<open>TypeError\<close> when the payload has no string form (before anything is assigned),
  and line 170 throws for an \<open>error\<close> record. A call of \<open>setMessages\<close> puts its updater
  at the end of the queue.
\<close>

definition try_block :: "platform \<Rightarrow> string \<Rightarrow> string \<Rightarrow> state \<Rightarrow> exn option \<times> state" where
  "try_block P assistantMessageId line s =
     (case JSON_parse P (drop 6 line) of
        None \<Rightarrow> (Some SyntaxError, s)
      | Some data \<Rightarrow>
          if data = JNull then (Some TypeError, s)
          else if property data ''type'' = Some (JStr ''sources'') then
            (let srcs = or_empty_array (property data ''sources'')
             in (None, s\<lparr>cur_sources := srcs, events := events s @ [EvSources srcs]\<rparr>))
          else if property data ''type'' = Some (JStr ''sources_update'') then
            (let srcs = or_empty_array (property data ''sources'')
             in (None, s\<lparr>cur_sources := srcs,
                   pending := pending s @ [ShowSources assistantMessageId],
                   events := events s @ [EvSourcesUpdate srcs]\<rparr>))
          else if property data ''type'' = Some (JStr ''content'') then
            (case concat_operand P (property data ''content'') of
               None \<Rightarrow>
                 (Some TypeError, s\<lparr>events := events s @ [EvContent (property data ''content'')]\<rparr>)
             | Some str \<Rightarrow>
                 (None, s\<lparr>accumulatedContent := accumulatedContent s @ str,
                    pending := pending s @ [ShowContent assistantMessageId],
                    events := events s @ [EvContent (property data ''content'')]\<rparr>))
          else if property data ''type'' = Some (JStr ''done'') then
            (None, s\<lparr>pending := pending s @ [ShowDone assistantMessageId],
                   events := events s @ [EvDone]\<rparr>)
          else if property data ''type'' = Some (JStr ''error'') then
            (Some (Error (property data ''error'')),
             s\<lparr>events := events s @ [EvError (property data ''error'')]\<rparr>)
          else (None, s))"

text \<open>
  The body of the \<open>for\<close> loop, lines 132-177. The \<open>catch\<close> of line 172 takes every
  exception of the \<open>try\<close>, whatever it is, and only writes to the console. The first
  component of the result is the exception that leaves the loop body.
\<close>

definition handle_line :: "platform \<Rightarrow> string \<Rightarrow> string \<Rightarrow> state \<Rightarrow> exn option \<times> state" where
  "handle_line P assistantMessageId line s =
     (if startsWith line ''data: '' then
        (case try_block P assistantMessageId line s of
           (None, s') \<Rightarrow> (None, s')
         | (Some e, s') \<Rightarrow> (None, s'))
      else (None, s))"

text \<open>\<open>for (const line of lines)\<close>: an exception leaving the body ends the loop.\<close>

fun for_lines :: "platform \<Rightarrow> string \<Rightarrow> string list \<Rightarrow> state \<Rightarrow> exn option \<times> state" where
  "for_lines P aid [] s = (None, s)"
| "for_lines P aid (line # lines) s =
     (case handle_line P aid line s of
        (Some e, s') \<Rightarrow> (Some e, s')
      | (None, s') \<Rightarrow> for_lines P aid lines s')"

text \<open>One turn of the \<open>while\<close> loop after a chunk was read, lines 125-178.\<close>

definition process_chunk :: "platform \<Rightarrow> string \<Rightarrow> string \<Rightarrow> state \<Rightarrow> exn option \<times> state" where
  "process_chunk P assistantMessageId chunk s =
     (let buf = buffer s @ chunk;
          (popped, lines) = pop (split_nl buf)
      in for_lines P assistantMessageId lines (s\<lparr>buffer := or_empty_string popped\<rparr>))"

text \<open>
  What happens next while the handler is suspended at \<open>await reader.read()\<close>: the read
  resolves to a chunk (already decoded to text by the streaming \<open>TextDecoder\<close>) or to
  \<open>done\<close>, or it is rejected, or React renders the component (\<open>Render\<close>) and the handler
  goes on waiting. Between two suspensions the handler runs without interruption, so React
  renders at these points only. Whether it renders between two reads is up to its
  scheduler (a chunk that is already there is handed over before the scheduled render
  runs), so the list says where it did. A render while \<open>fetch\<close> is awaited is a \<open>Render\<close>
  before the first read: the handler queues nothing and assigns no local in between. Where
  React runs an updater as soon as it is queued, the messages are those of a render right
  after that line: the list that cuts the chunk there and has a \<open>Render\<close> at the cut
  describes it, and handles the same lines.
\<close>

datatype tick = Chunk string | StreamDone | ReadRejected | Render

text \<open>
  How a piece of the handler ends: it ran to its end, it threw, or it is still waiting
  for a read that has not resolved.
\<close>

datatype status = Returned | Thrown exn | Awaiting

text \<open>The \<open>while (true)\<close> loop of lines 118-179.\<close>

fun read_loop :: "platform \<Rightarrow> string \<Rightarrow> tick list \<Rightarrow> state \<Rightarrow> status \<times> state" where
  "read_loop P aid [] s = (Awaiting, s)"
| "read_loop P aid (Render # rs) s = read_loop P aid rs (render s)"
| "read_loop P aid (StreamDone # rs) s = (Returned, s)"
| "read_loop P aid (ReadRejected # rs) s = (Thrown NetworkError, s)"
| "read_loop P aid (Chunk chunk # rs) s =
     (case process_chunk P aid chunk s of
        (Some e, s') \<Rightarrow> (Thrown e, s')
      | (None, s') \<Rightarrow> read_loop P aid rs s')"

text \<open>
  What \<open>fetch\<close> resolves to: a rejection, or a response with its status and its body
  (\<open>None\<close> when \<open>response.body\<close> is \<open>null\<close>), the body given by what happens at the
  reads of its reader.
\<close>

datatype fetch_result = FetchRejected | Response nat "tick list option"

text \<open>The values read from the clock during one call.\<close>

record clock =
  now_user :: nat
  date_user :: nat
  now_assistant :: nat
  date_assistant :: nat

text \<open>The body of the outer \<open>try\<close>, lines 88-181.\<close>

definition try_stream :: "platform \<Rightarrow> string \<Rightarrow> fetch_result \<Rightarrow> state \<Rightarrow> status \<times> state" where
  "try_stream P assistantMessageId response s =
     (case response of
        FetchRejected \<Rightarrow> (Thrown NetworkError, s)
      | Response st body \<Rightarrow>
          if \<not> (200 \<le> st \<and> st \<le> 299) then (Thrown (HttpError st), s)
          else (case body of
                  None \<Rightarrow> (Thrown NoReader, s)
                | Some reads \<Rightarrow>
                    (case read_loop P assistantMessageId reads
                            (s\<lparr>accumulatedContent := [], cur_sources := JArr [],
                               buffer := [], events := []\<rparr>) of
                       (Returned, s') \<Rightarrow>
                         (Returned, s'\<lparr>toasts := toasts s' @ [Success ''Response completed!'']\<rparr>)
                     | (st', s') \<Rightarrow> (st', s'))))"

text \<open>The outer \<open>catch\<close>, lines 182-196.\<close>

definition catch_stream :: "string \<Rightarrow> state \<Rightarrow> state" where
  "catch_stream assistantMessageId s =
     s\<lparr>pending := pending s @ [ShowFallback assistantMessageId],
       toasts := toasts s @ [Failure ''Failed to get response. Please try again.'']\<rparr>"

text \<open>
  \<open>handleSendMessage\<close>, lines 63-199. While a read is outstanding the handler is
  suspended and the state is the one reached so far. The handler leaves its last updaters
  in the queue; the messages on screen in the end are those of \<open>render\<close> applied to its
  result.
\<close>

definition handleSendMessage :: "platform \<Rightarrow> clock \<Rightarrow> fetch_result \<Rightarrow> string \<Rightarrow> state \<Rightarrow> state" where
  "handleSendMessage P clk response message s =
     (if String_trim P message = [] \<or> isLoading s then s
      else
        let userMessage = \<lparr>msg_id = ''msg-'' @ decimal (now_user clk) @ ''-user'',
              content = message, role = User, timestamp = date_user clk,
              isStreaming = None, sources = None\<rparr>;
            s1 = s\<lparr>pending := pending s @ [Append userMessage], isLoading := True\<rparr>;
            assistantMessageId = ''msg-'' @ decimal (now_assistant clk) @ ''-assistant'';
            streamingMessage = \<lparr>msg_id = assistantMessageId,
              content = [], role = Assistant, timestamp = date_assistant clk,
              isStreaming = Some True, sources = None\<rparr>;
            s2 = s1\<lparr>pending := pending s1 @ [Append streamingMessage]\<rparr>
        in (case try_stream P assistantMessageId response s2 of
              (Returned, s3) \<Rightarrow> s3\<lparr>isLoading := False\<rparr>
            | (Thrown e, s3) \<Rightarrow> (catch_stream assistantMessageId s3)\<lparr>isLoading := False\<rparr>
            | (Awaiting, s3) \<Rightarrow> s3))"

section \<open>The admin console (the \<open>Admin\<close> component, unnamed/part_000)\<close>

text \<open>A \<open>File\<close> as the handlers read it: its name and its size in bytes.\<close>

record File =
  file_name :: string
  file_size :: nat

text \<open>\<open>interface DocumentMetadata\<close> and \<open>interface BatchFileMetadata\<close>\<close>

record documentMetadata =
  displayName :: string
  documentType :: string
  documentSource :: string
  humanCapabilityDomain :: string
  author :: string
  publicationDate :: string
  description :: string
  allowDownload :: bool
  showInViewer :: bool

record batchFileMetadata = documentMetadata +
  item_file :: File
  filename :: string

text \<open>The state of \<open>batchProgress\<close>, lines 91-95.\<close>

record batchProgress =
  percent :: nat
  stage :: string
  isActive :: bool

text \<open>The callbacks handed to \<open>setTimeout\<close> at lines 526 and 533, with what they captured.\<close>

datatype timer = ShowComplete json | ResetBatch

text \<open>
  The network calls the component issues: the bulk upload sent at line 569 (the files and
  the metadata list; the chunking configuration sent along is left out) and the document
  list fetched by \<open>fetchDocuments\<close> (its effect on the document list is left out).
\<close>

datatype request =
    BulkUpload "File list" "(string \<times> documentMetadata) list"
  | GetDocuments

text \<open>
  The component state the upload handlers touch, the alerts shown, the network calls
  issued and the timers pending, each in order.
\<close>

record admin =
  selectedFile :: "File option"
  metadata :: documentMetadata
  batchMode :: bool
  batchFiles :: "batchFileMetadata list"
  isBatchUploading :: bool
  batchProgress :: batchProgress
  alerts :: "string list"
  requests :: "request list"
  timers :: "timer list"

text \<open>\<open>e.target\<close> of a change event on a file input: its \<open>files\<close> and its \<open>value\<close>.\<close>

record target =
  files :: "File list option"
  input_value :: string

definition MAX_FILE_SIZE :: nat where
  "MAX_FILE_SIZE = 1610612736"

text \<open>ASCII lower case, for the \<open>i\<close> flag of the regular expression of line 318.\<close>

definition lower :: "char \<Rightarrow> char" where
  "lower c =
     (case map_of (zip ''ABCDEFGHIJKLMNOPQRSTUVWXYZ'' ''abcdefghijklmnopqrstuvwxyz'') c of
        Some d \<Rightarrow> d
      | None \<Rightarrow> c)"

definition endsWith :: "string \<Rightarrow> string \<Rightarrow> bool" where
  "endsWith t p = (length p \<le> length t \<and> drop (length t - length p) t = p)"

text \<open>\<open>/\.(mp4|webm|mov|avi|mkv)$/i.test(filename)\<close>\<close>

definition isVideoFile :: "string \<Rightarrow> bool" where
  "isVideoFile name =
     list_ex (\<lambda>ext. endsWith (map lower name) (CHR ''.'' # ext))
       [''mp4'', ''webm'', ''mov'', ''avi'', ''mkv'']"

text \<open>
  \<open>name.replace(/\.[^/.]+$/, '')\<close>: the match, if any, starts at the last dot, and
  needs at least one character after it and no slash there.
\<close>

definition nameWithoutExt :: "string \<Rightarrow> string" where
  "nameWithoutExt name =
     (let ext = rev (takeWhile (\<lambda>c. c \<noteq> CHR ''.'') (rev name))
      in if CHR ''.'' \<in> set name \<and> ext \<noteq> [] \<and> CHR ''/'' \<notin> set ext
         then take (length name - length ext - 1) name
         else name)"

text \<open>\<open>t.replace(/[_-]/g, ' ')\<close>\<close>

definition spaced :: "string \<Rightarrow> string" where
  "spaced t = map (\<lambda>c. if c = CHR ''_'' \<or> c = CHR ''-'' then CHR '' '' else c) t"

text \<open>
  \<open>Math.round\<close> of a non-negative quotient, in exact arithmetic. The code divides and
  multiplies in double precision, so that its value can differ by one from this one where
  the exact product lies within a rounding error of a half (35 bytes of 100 give 31, and
  32 here). The order of the values and their bounds are the same: the operations on doubles
  are monotone, and exact at 0 and at 1.
\<close>

definition Math_round :: "rat \<Rightarrow> nat" where
  "Math_round x = nat (round x)"

text \<open>\<open>handleFileSelect\<close>, lines 329-353.\<close>

definition handleFileSelect :: "target \<Rightarrow> admin \<Rightarrow> target \<times> admin" where
  "handleFileSelect tgt a =
     (case files tgt of
        None \<Rightarrow> (tgt, a)
      | Some [] \<Rightarrow> (tgt, a)
      | Some (f # rest) \<Rightarrow>
          if file_size f > MAX_FILE_SIZE then
            (let sizeMB = Math_round (of_nat (file_size f) / (1024 * 1024))
             in (tgt\<lparr>input_value := []\<rparr>,
                 a\<lparr>alerts := alerts a @
                    [''File is too large ('' @ decimal sizeMB @
                     '' MB). Maximum allowed size is 1.5 GB.'']\<rparr>))
          else
            (let a1 = a\<lparr>selectedFile := Some f\<rparr>
             in if displayName (metadata a) = [] then
                  (tgt, a1\<lparr>metadata := (metadata a)
                          \<lparr>displayName := spaced (nameWithoutExt (file_name f)),
                            documentType :=
                              (if isVideoFile (file_name f) then ''video'' else ''article'')\<rparr>\<rparr>)
                else (tgt, a1)))"

text \<open>
  The body of the \<open>for\<close> loop of \<open>handleBatchFileSelect\<close>, lines 423-443, on the entries
  collected and the alerts shown so far.
\<close>

definition batch_select_file ::
    "File \<Rightarrow> batchFileMetadata list \<times> string list \<Rightarrow> batchFileMetadata list \<times> string list" where
  \<open>batch_select_file f acc =
     (case acc of (newFiles, shown) \<Rightarrow>
        if file_size f > MAX_FILE_SIZE then
          (newFiles,
           shown @ [''File "'' @ file_name f @ ''" is too large and will be skipped.''])
        else
          (newFiles @
             [\<lparr>displayName = spaced (nameWithoutExt (file_name f)),
               documentType = (if isVideoFile (file_name f) then ''video'' else ''article''),
               documentSource = ''institute'', humanCapabilityDomain = ''hr'', author = [],
               publicationDate = [], description = [], allowDownload = True,
               showInViewer = True, item_file = f, filename = file_name f\<rparr>],
           shown))\<close>

text \<open>\<open>handleBatchFileSelect\<close>, lines 417-449.\<close>

definition handleBatchFileSelect :: "target \<Rightarrow> admin \<Rightarrow> target \<times> admin" where
  "handleBatchFileSelect tgt a =
     (case files tgt of
        None \<Rightarrow> (tgt, a)
      | Some fs \<Rightarrow>
          if length fs > 0 then
            (case fold batch_select_file fs ([], alerts a) of
               (newFiles, shown) \<Rightarrow>
                 (tgt\<lparr>input_value := []\<rparr>,
                  a\<lparr>alerts := shown, batchFiles := batchFiles a @ newFiles\<rparr>))
          else (tgt, a))"

definition idle_progress :: batchProgress where
  "idle_progress = \<lparr>percent = 0, stage = [], isActive = False\<rparr>"

text \<open>\<open>handleBatchUpload\<close> up to \<open>xhr.send\<close>, lines 461-503 and 568-569.\<close>

definition handleBatchUpload :: "platform \<Rightarrow> admin \<Rightarrow> admin" where
  "handleBatchUpload P a =
     (if length (batchFiles a) = 0 then
        a\<lparr>alerts := alerts a @ [''Please select files to upload'']\<rparr>
      else if length (filter (\<lambda>f. String_trim P (displayName f) = []) (batchFiles a)) > 0 then
        a\<lparr>alerts := alerts a @ [''Please provide display names for all files'']\<rparr>
      else
        a\<lparr>isBatchUploading := True,
          batchProgress := \<lparr>percent = 0, stage = ''Preparing'', isActive = True\<rparr>,
          requests := requests a @
            [BulkUpload (map item_file (batchFiles a))
               (map (\<lambda>item. (filename item,
                     \<lparr>displayName = displayName item, documentType = documentType item,
                       documentSource = documentSource item,
                       humanCapabilityDomain = humanCapabilityDomain item,
                       author = author item, publicationDate = publicationDate item,
                       description = description item, allowDownload = True,
                       showInViewer = True\<rparr>)) (batchFiles a))]\<rparr>)"

text \<open>
  A \<open>ProgressEvent\<close> of the upload: \<open>loaded\<close> and \<open>total\<close> (here \<open>total_bytes\<close>). The
  platform sets \<open>lengthComputable\<close> exactly when the length of the body is not 0, and
  \<open>total\<close> is that length.
\<close>

record progressEvent =
  loaded :: nat
  total_bytes :: nat

definition lengthComputable :: "progressEvent \<Rightarrow> bool" where
  "lengthComputable event = (total_bytes event \<noteq> 0)"

text \<open>The \<open>progress\<close> listener, lines 505-515.\<close>

definition on_progress :: "progressEvent \<Rightarrow> admin \<Rightarrow> admin" where
  "on_progress event a =
     (if lengthComputable event then
        (let uploadPercent = Math_round ((of_nat (loaded event) / of_nat (total_bytes event)) * 90)
         in a\<lparr>batchProgress := \<lparr>percent = uploadPercent, stage = ''Uploading'', isActive = True\<rparr>\<rparr>)
      else a)"

text \<open>The \<open>load\<close> listener, lines 517-553, with \<open>xhr.status\<close>, \<open>xhr.responseText\<close> and
  \<open>xhr.statusText\<close>.\<close>

definition on_load :: "platform \<Rightarrow> nat \<Rightarrow> string \<Rightarrow> string \<Rightarrow> admin \<Rightarrow> admin" where
  "on_load P status responseText statusText a =
     (if status \<ge> 200 \<and> status < 300 then
        (case JSON_parse P responseText of
           Some result \<Rightarrow>
             a\<lparr>batchProgress := \<lparr>percent = 95, stage = ''Queued'', isActive = True\<rparr>,
               timers := timers a @ [ShowComplete result]\<rparr>
         | None \<Rightarrow>
             a\<lparr>alerts := alerts a @ [''Upload completed but response parsing failed''],
               batchProgress := idle_progress,
               isBatchUploading := False\<rparr>)
      else
        a\<lparr>alerts := alerts a @ [''Batch upload failed: '' @ statusText],
          batchProgress := idle_progress,
          isBatchUploading := False\<rparr>)"

text \<open>The \<open>error\<close> listener, lines 555-560.\<close>

definition on_error :: "admin \<Rightarrow> admin" where
  "on_error a =
     a\<lparr>alerts := alerts a @ [''Batch upload failed: Network error''],
       batchProgress := idle_progress,
       isBatchUploading := False\<rparr>"

text \<open>The \<open>abort\<close> listener, lines 562-566.\<close>

definition on_abort :: "admin \<Rightarrow> admin" where
  "on_abort a = a\<lparr>batchProgress := idle_progress, isBatchUploading := False\<rparr>"

text \<open>
  \<open>result.results.filter((r) => r.status === 'queued').length\<close>, line 529: \<open>None\<close> where
  it throws a \<open>TypeError\<close> (\<open>result\<close> is \<open>null\<close>, \<open>result.results\<close> is not an array, or an
  element of it is \<open>null\<close>).
\<close>

definition queuedCount :: "json \<Rightarrow> nat option" where
  "queuedCount result =
     (if result = JNull then None
      else (case property result ''results'' of
              Some (JArr rs) \<Rightarrow>
                if JNull \<in> set rs then None
                else Some (length (filter (\<lambda>r. property r ''status'' = Some (JStr ''queued'')) rs))
            | _ \<Rightarrow> None))"

text \<open>
  The callback of line 526. An exception in it is caught by nobody: the rest of the
  callback does not run.
\<close>

definition show_complete :: "json \<Rightarrow> admin \<Rightarrow> admin" where
  "show_complete result a =
     (let a1 = a\<lparr>batchProgress := \<lparr>percent = 100, stage = ''Complete'', isActive = True\<rparr>\<rparr>
      in case queuedCount result of
           None \<Rightarrow> a1
         | Some n \<Rightarrow>
             a1\<lparr>alerts := alerts a1 @
                  [''Batch upload complete! '' @ decimal n @ '' file'' @
                   (if n \<noteq> 1 then ''s'' else []) @ '' queued for processing.''],
                timers := timers a1 @ [ResetBatch]\<rparr>)"

text \<open>The callback of line 533.\<close>

definition reset_batch :: "admin \<Rightarrow> admin" where
  "reset_batch a =
     a\<lparr>batchFiles := [], batchMode := False, batchProgress := idle_progress,
       isBatchUploading := False, requests := requests a @ [GetDocuments]\<rparr>"

text \<open>
  What happens to the request after \<open>xhr.send\<close>: a progress event of the upload, the
  \<open>load\<close>, \<open>error\<close> or \<open>abort\<close> event, or the expiry of the oldest pending timer.
\<close>

datatype xhr_event =
    UploadProgress progressEvent
  | Load nat string string
  | NetworkFailure
  | Aborted
  | Timeout

fun xhr_step :: "platform \<Rightarrow> xhr_event \<Rightarrow> admin \<Rightarrow> admin" where
  "xhr_step P (UploadProgress event) a = on_progress event a"
| "xhr_step P (Load status responseText statusText) a = on_load P status responseText statusText a"
| "xhr_step P NetworkFailure a = on_error a"
| "xhr_step P Aborted a = on_abort a"
| "xhr_step P Timeout a =
     (case timers a of
        [] \<Rightarrow> a
      | ShowComplete result # ts \<Rightarrow> show_complete result (a\<lparr>timers := ts\<rparr>)
      | ResetBatch # ts \<Rightarrow> reset_batch (a\<lparr>timers := ts\<rparr>))"

text \<open>The successive states of the component: before the first event and after each one.\<close>

fun history :: "platform \<Rightarrow> xhr_event list \<Rightarrow> admin \<Rightarrow> admin list" where
  "history P [] a = [a]"
| "history P (e # es) a = a # history P es (xhr_step P e a)"

text \<open>
  What the progress bar displays, lines 1028-1044: the percent, and only while
  \<open>batchProgress.isActive\<close>.
\<close>

definition displayed :: "admin \<Rightarrow> nat option" where
  "displayed a = (if isActive (batchProgress a) then Some (percent (batchProgress a)) else None)"

text \<open>
  The transport, for a body of \<open>n\<close> bytes: while the body is sent, progress events
  report the bytes sent so far, which never decrease and never exceed \<open>n\<close>; then comes
  one of \<open>load\<close>, \<open>error\<close> and \<open>abort\<close>, and no event of the request after it. Timers
  expire only after the \<open>load\<close>, which is where the handlers start them.
  \<open>transport n ph e\<close> is the phase after the event \<open>e\<close>, \<open>None\<close> when the transport
  cannot deliver \<open>e\<close> in the phase \<open>ph\<close>.
\<close>

datatype phase = Sending nat | Responded | Closed

fun transport :: "nat \<Rightarrow> phase \<Rightarrow> xhr_event \<Rightarrow> phase option" where
  "transport n (Sending sent) (UploadProgress event) =
     (if total_bytes event = n \<and> sent \<le> loaded event \<and> loaded event \<le> n
      then Some (Sending (loaded event)) else None)"
| "transport n (Sending sent) (Load status responseText statusText) = Some Responded"
| "transport n (Sending sent) NetworkFailure = Some Closed"
| "transport n (Sending sent) Aborted = Some Closed"
| "transport n (Sending sent) Timeout = None"
| "transport n Responded Timeout = Some Responded"
| "transport n Responded e = None"
| "transport n Closed e = None"

fun transport_run :: "nat \<Rightarrow> phase \<Rightarrow> xhr_event list \<Rightarrow> phase option" where
  "transport_run n ph [] = Some ph"
| "transport_run n ph (e # es) =
     (case transport n ph e of None \<Rightarrow> None | Some ph' \<Rightarrow> transport_run n ph' es)"

text \<open>A \<open>load\<close> with a status from 200 to 299 and a body that parses.\<close>

fun success_response :: "platform \<Rightarrow> xhr_event \<Rightarrow> bool" where
  "success_response P (Load status responseText statusText) =
     (status \<ge> 200 \<and> status < 300 \<and> JSON_parse P responseText \<noteq> None)"
| "success_response P e = False"

section \<open>Vocabulary for the statements\<close>

subsection \<open>Lines of the stream\<close>

text \<open>
  The record a line carries: what \<open>JSON.parse\<close> returns for the text after the prefix
  \<open>data: \<close>, when the line has the prefix and the text parses.
\<close>

definition parsed :: "platform \<Rightarrow> string \<Rightarrow> json option" where
  "parsed P line = (if startsWith line ''data: '' then JSON_parse P (drop 6 line) else None)"

text \<open>\<open>data.type === t\<close>\<close>

definition has_type :: "json \<Rightarrow> string \<Rightarrow> bool" where
  "has_type data t = (property data ''type'' = Some (JStr t))"

text \<open>The five strings the dispatch of lines 137-171 compares \<open>data.type\<close> with.\<close>

definition event_types :: "string list" where
  "event_types = [''sources'', ''sources_update'', ''content'', ''done'', ''error'']"

text \<open>A line decodes when it carries a record whose type is one of the five.\<close>

definition decodes :: "platform \<Rightarrow> string \<Rightarrow> bool" where
  "decodes P line =
     (case parsed P line of
        None \<Rightarrow> False
      | Some data \<Rightarrow> list_ex (has_type data) event_types)"

text \<open>A text with one line break after each of the given lines.\<close>

definition unlines :: "string list \<Rightarrow> string" where
  "unlines ls = concat (map (\<lambda>l. l @ [newline]) ls)"

subsection \<open>The loop body and the loop turn as state transformers\<close>

text \<open>The state a line leaves behind.\<close>

definition line_step :: "platform \<Rightarrow> string \<Rightarrow> string \<Rightarrow> state \<Rightarrow> state" where
  "line_step P aid line s = snd (handle_line P aid line s)"

text \<open>The state a chunk leaves behind: the complete lines handled in order, the tail held back.\<close>

definition chunk_step :: "platform \<Rightarrow> string \<Rightarrow> string \<Rightarrow> state \<Rightarrow> state" where
  "chunk_step P aid chunk s =
     (fold (line_step P aid) (butlast (split_nl (buffer s @ chunk))) s)
       \<lparr>buffer := last (split_nl (buffer s @ chunk))\<rparr>"

subsection \<open>What arrives while the handler reads\<close>

text \<open>Ticks that keep the loop going: chunks arrive and React renders.\<close>

definition reading :: "tick list \<Rightarrow> bool" where
  "reading ts = (StreamDone \<notin> set ts \<and> ReadRejected \<notin> set ts)"

text \<open>The text received: the chunks in order.\<close>

definition received :: "tick list \<Rightarrow> string" where
  "received ts = concat (map (\<lambda>t. case t of Chunk c \<Rightarrow> c | _ \<Rightarrow> []) ts)"

text \<open>The state a tick leaves behind when it keeps the loop going.\<close>

fun tick_step :: "platform \<Rightarrow> string \<Rightarrow> tick \<Rightarrow> state \<Rightarrow> state" where
  "tick_step P aid (Chunk c) s = chunk_step P aid c s"
| "tick_step P aid Render s = render s"
| "tick_step P aid StreamDone s = s"
| "tick_step P aid ReadRejected s = s"

text \<open>
  What the loop does, seen line by line: it handles a line, or React renders. The chunks
  decide where the renders can fall, not which lines are handled.
\<close>

datatype action = Handle string | Rerender

fun act :: "platform \<Rightarrow> string \<Rightarrow> action \<Rightarrow> state \<Rightarrow> state" where
  "act P aid (Handle l) s = line_step P aid l s"
| "act P aid Rerender s = render s"

definition lines_of :: "action list \<Rightarrow> string list" where
  "lines_of acts = concat (map (\<lambda>a. case a of Handle l \<Rightarrow> [l] | Rerender \<Rightarrow> []) acts)"

text \<open>
  Every such run is the run of a list of ticks: each line arrives in a chunk of its own,
  and a \<open>Render\<close> stands where React renders.
\<close>

definition ticks_of :: "action list \<Rightarrow> tick list" where
  "ticks_of acts =
     map (\<lambda>a. case a of Handle l \<Rightarrow> Chunk (l @ [newline]) | Rerender \<Rightarrow> Render) acts"

subsection \<open>What the decoder has, and what the screen shows\<close>

text \<open>The state without the messages and the queue: the locals, the events, the toasts.\<close>

definition decoder_part :: "state \<Rightarrow> state" where
  "decoder_part s = s\<lparr>messages := [], pending := []\<rparr>"

text \<open>What a render of \<open>s\<close> would show if the locals had the values they have in \<open>L\<close>.\<close>

definition view :: "state \<Rightarrow> state \<Rightarrow> message list" where
  "view L s = fold (run_updater L) (pending s) (messages s)"

text \<open>The updaters that write the \<open>sources\<close> of a message.\<close>

fun shows_sources :: "updater \<Rightarrow> bool" where
  "shows_sources (ShowSources aid) = True"
| "shows_sources (ShowContent aid) = True"
| "shows_sources u = False"

text \<open>
  What a \<open>content\<close> record adds to \<open>accumulatedContent\<close>: the string form of its
  payload, and nothing when the payload has none (line 149 throws and the line is skipped).
\<close>

definition payload_text :: "platform \<Rightarrow> json \<Rightarrow> string" where
  "payload_text P d = (case concat_operand P (property d ''content'') of None \<Rightarrow> [] | Some t \<Rightarrow> t)"

definition payload_shown :: "platform \<Rightarrow> json \<Rightarrow> bool" where
  "payload_shown P d = (concat_operand P (property d ''content'') \<noteq> None)"

text \<open>The fields of a message that no updater writes.\<close>

definition frame :: "message \<Rightarrow> string \<times> role \<times> nat" where
  "frame m = (msg_id m, role m, timestamp m)"

text \<open>
  A render would show a last message with the given id, role and time, whose content is
  \<open>accumulatedContent\<close>, whose flag is \<open>st\<close>, and which carries the local \<open>sources\<close>
  when \<open>eff\<close> holds and no list otherwise.
\<close>

definition showing :: "string \<Rightarrow> role \<Rightarrow> nat \<Rightarrow> bool option \<Rightarrow> bool \<Rightarrow> state \<Rightarrow> bool" where
  "showing aid r ts st eff s =
     (view s s \<noteq> [] \<and>
      last (view s s) =
        \<lparr>msg_id = aid, content = accumulatedContent s, role = r, timestamp = ts,
          isStreaming = st, sources = (if eff then Some (cur_sources s) else None)\<rparr>)"

subsection \<open>The progress bar\<close>

text \<open>The bar as a number: the percent displayed, and 101 once the bar is hidden.\<close>

definition level :: "admin \<Rightarrow> nat" where
  "level a = (case displayed a of Some p \<Rightarrow> p | None \<Rightarrow> 101)"

text \<open>What holds of the component in each phase of the transport.\<close>

fun tracker_inv :: "nat \<Rightarrow> bool \<Rightarrow> phase \<Rightarrow> admin \<Rightarrow> bool" where
  "tracker_inv n seen (Sending sent) a =
     (timers a = [] \<and> isActive (batchProgress a) \<and> sent \<le> n \<and>
      percent (batchProgress a) \<le> Math_round ((of_nat sent / of_nat n) * 90))"
| "tracker_inv n seen Responded a =
     ((\<exists>r. timers a = [ShowComplete r]) \<and> seen \<and> isActive (batchProgress a) \<and>
        percent (batchProgress a) = 95 \<or>
      (timers a = [ResetBatch] \<or> timers a = []) \<and> seen \<and> isActive (batchProgress a) \<and>
        percent (batchProgress a) = 100 \<or>
      timers a = [] \<and> batchProgress a = idle_progress)"
| "tracker_inv n seen Closed a = (timers a = [] \<and> batchProgress a = idle_progress)"

section \<open>Data for concrete runs\<close>

text \<open>
  Lines and records for concrete runs, and a platform whose \<open>JSON.parse\<close> knows the
  texts of these lines (and \<open>null\<close>) and rejects every other text. The payload of
  \<open>odd_line\<close> is an object with a property \<open>toString\<close> of its own: it has no string
  form.
\<close>

definition sources_line :: string where
  \<open>sources_line = ''data: {"type":"sources","sources":[7]}''\<close>

definition sources_record :: json where
  "sources_record = JObj [(''type'', JStr ''sources''), (''sources'', JArr [JNum 7])]"

definition hel_line :: string where
  \<open>hel_line = ''data: {"type":"content","content":"Hel"}''\<close>

definition hel_record :: json where
  "hel_record = JObj [(''type'', JStr ''content''), (''content'', JStr ''Hel'')]"

definition lo_line :: string where
  \<open>lo_line = ''data: {"type":"content","content":"lo"}''\<close>

definition lo_record :: json where
  "lo_record = JObj [(''type'', JStr ''content''), (''content'', JStr ''lo'')]"

definition done_line :: string where
  \<open>done_line = ''data: {"type":"done"}''\<close>

definition done_record :: json where
  "done_record = JObj [(''type'', JStr ''done'')]"

definition error_line :: string where
  \<open>error_line = ''data: {"type":"error","error":"boom"}''\<close>

definition error_record :: json where
  "error_record = JObj [(''type'', JStr ''error''), (''error'', JStr ''boom'')]"

definition ping_line :: string where
  \<open>ping_line = ''data: {"type":"ping"}''\<close>

definition ping_record :: json where
  "ping_record = JObj [(''type'', JStr ''ping'')]"

definition odd_line :: string where
  \<open>odd_line = ''data: {"type":"content","content":{"toString":1}}''\<close>

definition odd_record :: json where
  "odd_record = JObj [(''type'', JStr ''content''), (''content'', JObj [(''toString'', JNum 1)])]"

definition upload_response_text :: string where
  \<open>upload_response_text = ''{"results":[{"status":"queued"},{"status":"failed"}]}''\<close>

definition upload_response :: json where
  "upload_response =
     JObj [(''results'', JArr [JObj [(''status'', JStr ''queued'')],
                               JObj [(''status'', JStr ''failed'')]])]"

definition demo_parse :: "string \<Rightarrow> json option" where
  "demo_parse t = map_of
     [(drop 6 sources_line, sources_record),
      (drop 6 hel_line, hel_record),
      (drop 6 lo_line, lo_record),
      (drop 6 done_line, done_record),
      (drop 6 error_line, error_record),
      (drop 6 ping_line, ping_record),
      (drop 6 odd_line, odd_record),
      (upload_response_text, upload_response),
      (''{}'', JObj []),
      (''null'', JNull)] t"

text \<open>
  The string form of a value as \<open>+=\<close> takes it: \<open>undefined\<close> and \<open>null\<close> by name, a
  number in decimal, an array as its elements joined by commas (\<open>null\<close> as the empty
  string), an object as \<open>[object Object]\<close> unless it has a property \<open>toString\<close> of its
  own.
\<close>

fun join_comma :: "string option list \<Rightarrow> string option" where
  "join_comma [] = Some []"
| "join_comma [x] = x"
| "join_comma (x # y # ys) =
     (case (x, join_comma (y # ys)) of
        (Some a, Some b) \<Rightarrow> Some (a @ '','' @ b)
      | _ \<Rightarrow> None)"

fun demo_string :: "json \<Rightarrow> string option" where
  "demo_string JNull = Some ''null''"
| "demo_string (JBool b) = Some (if b then ''true'' else ''false'')"
| "demo_string (JNum n) = Some (if n < 0 then ''-'' @ decimal (nat (- n)) else decimal (nat n))"
| "demo_string (JStr t) = Some t"
| "demo_string (JArr xs) =
     join_comma (map (\<lambda>x. if x = JNull then Some [] else demo_string x) xs)"
| "demo_string (JObj kvs) =
     (if map_of kvs ''toString'' = None then Some ''[object Object]'' else None)"

definition demo :: platform where
  "demo = \<lparr>JSON_parse = demo_parse,
            ToString = (\<lambda>v. case v of None \<Rightarrow> Some ''undefined'' | Some j \<Rightarrow> demo_string j),
            String_trim = filter (\<lambda>c. c \<noteq> CHR '' '')\<rparr>"

definition demo_clock :: clock where
  "demo_clock = \<lparr>now_user = 1700, date_user = 1700,
                  now_assistant = 1701, date_assistant = 1701\<rparr>"

definition idle :: state where
  "idle = \<lparr>messages = [], pending = [], isLoading = False, toasts = [],
            accumulatedContent = [], cur_sources = JArr [], buffer = [], events = []\<rparr>"

lemmas demo_defs =
  sources_line_def sources_record_def hel_line_def hel_record_def lo_line_def lo_record_def
  done_line_def done_record_def error_line_def error_record_def ping_line_def ping_record_def
  odd_line_def odd_record_def
  upload_response_text_def upload_response_def demo_parse_def demo_def demo_clock_def idle_def
  newline_def

text \<open>A component in the middle of a stream, with the empty assistant message \<open>a\<close> on screen.\<close>

definition streaming :: state where
  "streaming = idle\<lparr>messages :=
       [\<lparr>msg_id = ''a'', content = [], role = Assistant, timestamp = 0,
          isStreaming = Some True, sources = None\<rparr>],
     isLoading := True\<rparr>"

text \<open>The same component, with the updater of a \<open>done\<close> line waiting in the queue.\<close>

definition finishing :: state where
  "finishing = streaming\<lparr>pending := [ShowDone ''a'']\<rparr>"

definition fresh :: admin where
  "fresh = \<lparr>selectedFile = None,
     metadata = \<lparr>displayName = [], documentType = ''article'', documentSource = ''institute'',
       humanCapabilityDomain = ''hr'', author = [], publicationDate = [], description = [],
       allowDownload = True, showInViewer = True\<rparr>,
     batchMode = False, batchFiles = [], isBatchUploading = False,
     batchProgress = idle_progress, alerts = [], requests = [], timers = []\<rparr>"

definition big :: File where "big = \<lparr>file_name = ''talk_one.MP4'', file_size = 1610612737\<rparr>"

definition ok :: File where "ok = \<lparr>file_name = ''my-notes.v2.pdf'', file_size = 1610612736\<rparr>"

definition selected :: admin where
  "selected = fresh\<lparr>batchMode := True,
     batchFiles := [\<lparr>displayName = ''my notes.v2'', documentType = ''article'',
       documentSource = ''institute'', humanCapabilityDomain = ''hr'', author = [],
       publicationDate = [], description = [], allowDownload = True, showInViewer = True,
       item_file = ok, filename = ''my-notes.v2.pdf''\<rparr>]\<rparr>"

definition success_run :: "xhr_event list" where
  "success_run =
     [UploadProgress \<lparr>loaded = 50, total_bytes = 100\<rparr>, UploadProgress \<lparr>loaded = 100, total_bytes = 100\<rparr>,
      Load 200 upload_response_text ''OK'', Timeout, Timeout]"

lemmas admin_demo_defs =
  selected_def fresh_def ok_def big_def success_run_def idle_progress_def demo_defs

lemmas tracker_defs =
  handleBatchUpload_def on_progress_def on_load_def on_error_def on_abort_def show_complete_def
  reset_batch_def queuedCount_def lengthComputable_def Math_round_def displayed_def

section \<open>Properties of the stream decoder\<close>

subsection \<open>Splitting on line breaks\<close>

lemma split_nl_not_Nil [simp]: "split_nl t \<noteq> []"
  by (induction t) (auto split: list.splits)

lemma split_nl_no_newline: "newline \<notin> set t \<Longrightarrow> split_nl t = [t]"
  by (induction t) auto

lemma split_nl_segments: "l \<in> set (split_nl t) \<Longrightarrow> newline \<notin> set l"
  by (induction t arbitrary: l) (auto split: if_splits list.splits)

lemma last_split_nl_no_newline: "newline \<notin> set (last (split_nl t))"
  by (rule split_nl_segments [of _ t]) simp

lemma split_nl_append:
  "split_nl (a @ b) = butlast (split_nl a) @ split_nl (last (split_nl a) @ b)"
proof (induction a)
  case Nil
  show ?case by simp
next
  case (Cons c a)
  show ?case
  proof (cases "c = newline")
    case True
    with Cons show ?thesis by simp
  next
    case False
    obtain l ls where sp: "split_nl a = l # ls"
      by (cases "split_nl a") auto
    show ?thesis
    proof (cases ls)
      case Nil
      with sp Cons False show ?thesis by simp
    next
      case (Cons l' ls')
      with sp Cons.IH False show ?thesis by simp
    qed
  qed
qed

lemma split_nl_line: "newline \<notin> set l \<Longrightarrow> split_nl (l @ newline # t) = l # split_nl t"
  by (induction l) auto

lemma split_nl_unlines:
  "\<forall>l \<in> set ls. newline \<notin> set l \<Longrightarrow> split_nl (unlines ls @ t) = ls @ split_nl t"
  by (induction ls) (simp_all add: unlines_def split_nl_line)

lemma handle_line_no_throw: "fst (handle_line P aid line s) = None"
  by (simp add: handle_line_def split: prod.splits option.splits)

lemma handle_line_step: "handle_line P aid line s = (None, line_step P aid line s)"
  using handle_line_no_throw [of P aid line s] by (simp add: line_step_def prod_eq_iff)

lemma for_lines_fold: "for_lines P aid ls s = (None, fold (line_step P aid) ls s)"
  by (induction ls arbitrary: s) (simp_all add: handle_line_step)

lemma try_block_buffer:
  "try_block P aid l (s\<lparr>buffer := b\<rparr>) = (fst (try_block P aid l s), (snd (try_block P aid l s))\<lparr>buffer := b\<rparr>)"
  by (simp add: try_block_def Let_def split: option.splits)

lemma line_step_buffer:
  "line_step P aid l (s\<lparr>buffer := b\<rparr>) = (line_step P aid l s)\<lparr>buffer := b\<rparr>"
  by (simp add: line_step_def handle_line_def try_block_buffer split: prod.splits option.splits)

lemma fold_line_step_buffer:
  "fold (line_step P aid) ls (s\<lparr>buffer := b\<rparr>) = (fold (line_step P aid) ls s)\<lparr>buffer := b\<rparr>"
  by (induction ls arbitrary: s) (simp_all add: line_step_buffer)

lemma process_chunk_step: "process_chunk P aid chunk s = (None, chunk_step P aid chunk s)"
  by (simp add: process_chunk_def chunk_step_def pop_def or_empty_string_def for_lines_fold
      fold_line_step_buffer Let_def)

lemma buffer_chunk_step:
  "buffer (chunk_step P aid chunk s) = last (split_nl (buffer s @ chunk))"
  by (simp add: chunk_step_def)

lemma chunk_step_append:
  "chunk_step P aid c2 (chunk_step P aid c1 s) = chunk_step P aid (c1 @ c2) s"
proof -
  let ?L1 = "split_nl (buffer s @ c1)"
  let ?L2 = "split_nl (last ?L1 @ c2)"
  have L: "split_nl (buffer s @ c1 @ c2) = butlast ?L1 @ ?L2"
    using split_nl_append [of "buffer s @ c1" c2] by simp
  show ?thesis
    by (simp add: chunk_step_def L butlast_append fold_line_step_buffer)
qed

lemma chunk_step_Nil:
  "newline \<notin> set (buffer s) \<Longrightarrow> chunk_step P aid [] s = s"
  by (simp add: chunk_step_def split_nl_no_newline)

lemma line_step_skip:
  "parsed P line = None \<Longrightarrow> line_step P aid line s = s"
  by (simp add: line_step_def handle_line_def parsed_def try_block_def split: if_splits)

lemma has_type_not_null: "has_type d t \<Longrightarrow> d \<noteq> JNull"
  by (auto simp: has_type_def)

lemma parsed_SomeD:
  "parsed P line = Some d \<Longrightarrow> startsWith line ''data: '' \<and> JSON_parse P (drop 6 line) = Some d"
  by (simp add: parsed_def split: if_splits)

lemma line_step_sources:
  assumes "parsed P line = Some d" and "has_type d ''sources''"
  shows "line_step P aid line s =
           s\<lparr>cur_sources := or_empty_array (property d ''sources''),
             events := events s @ [EvSources (or_empty_array (property d ''sources''))]\<rparr>"
  using parsed_SomeD [OF assms(1)] assms(2) has_type_not_null [OF assms(2)]
  by (simp add: line_step_def handle_line_def try_block_def has_type_def Let_def)

lemma line_step_sources_update:
  assumes "parsed P line = Some d" and "has_type d ''sources_update''"
  shows "line_step P aid line s =
           s\<lparr>cur_sources := or_empty_array (property d ''sources''),
             pending := pending s @ [ShowSources aid],
             events := events s @ [EvSourcesUpdate (or_empty_array (property d ''sources''))]\<rparr>"
  using parsed_SomeD [OF assms(1)] assms(2) has_type_not_null [OF assms(2)]
  by (simp add: line_step_def handle_line_def try_block_def has_type_def Let_def)

lemma line_step_content:
  assumes "parsed P line = Some d" and "has_type d ''content''"
    and "concat_operand P (property d ''content'') = Some t"
  shows "line_step P aid line s =
           s\<lparr>accumulatedContent := accumulatedContent s @ t,
             pending := pending s @ [ShowContent aid],
             events := events s @ [EvContent (property d ''content'')]\<rparr>"
  using parsed_SomeD [OF assms(1)] assms(2,3) has_type_not_null [OF assms(2)]
  by (simp add: line_step_def handle_line_def try_block_def has_type_def Let_def)

lemma line_step_content_throws:
  assumes "parsed P line = Some d" and "has_type d ''content''"
    and "concat_operand P (property d ''content'') = None"
  shows "line_step P aid line s = s\<lparr>events := events s @ [EvContent (property d ''content'')]\<rparr>"
  using parsed_SomeD [OF assms(1)] assms(2,3) has_type_not_null [OF assms(2)]
  by (simp add: line_step_def handle_line_def try_block_def has_type_def Let_def)

lemma line_step_done:
  assumes "parsed P line = Some d" and "has_type d ''done''"
  shows "line_step P aid line s =
           s\<lparr>pending := pending s @ [ShowDone aid], events := events s @ [EvDone]\<rparr>"
  using parsed_SomeD [OF assms(1)] assms(2) has_type_not_null [OF assms(2)]
  by (simp add: line_step_def handle_line_def try_block_def has_type_def Let_def)

lemma line_step_error:
  assumes "parsed P line = Some d" and "has_type d ''error''"
  shows "line_step P aid line s = s\<lparr>events := events s @ [EvError (property d ''error'')]\<rparr>"
  using parsed_SomeD [OF assms(1)] assms(2) has_type_not_null [OF assms(2)]
  by (simp add: line_step_def handle_line_def try_block_def has_type_def Let_def)

lemma line_step_unrecognized:
  assumes "parsed P line = Some d" and "\<not> list_ex (has_type d) event_types"
  shows "line_step P aid line s = s"
  using parsed_SomeD [OF assms(1)] assms(2)
  by (simp add: line_step_def handle_line_def try_block_def has_type_def Let_def
      event_types_def)

lemma line_step_undecodable: "\<not> decodes P line \<Longrightarrow> line_step P aid line s = s"
  by (cases "parsed P line") (simp_all add: decodes_def line_step_skip line_step_unrecognized)

lemma decodes_cases:
  assumes "decodes P line"
  obtains d where "parsed P line = Some d" and
    "has_type d ''sources'' \<or> has_type d ''sources_update'' \<or> has_type d ''content'' \<or>
     has_type d ''done'' \<or> has_type d ''error''"
  using assms by (cases "parsed P line") (simp_all add: decodes_def event_types_def)

lemma events_line_step:
  "length (events (line_step P aid line s)) = length (events s) + (if decodes P line then 1 else 0)"
proof (cases "decodes P line")
  case False
  then show ?thesis by (simp add: line_step_undecodable)
next
  case True
  then obtain d where d: "parsed P line = Some d" and
    t: "has_type d ''sources'' \<or> has_type d ''sources_update'' \<or> has_type d ''content'' \<or>
     has_type d ''done'' \<or> has_type d ''error''"
    by (rule decodes_cases)
  have "length (events (line_step P aid line s)) = Suc (length (events s))"
    using t
  proof (elim disjE)
    assume "has_type d ''sources''"
    then show ?thesis by (simp only: line_step_sources [OF d]) simp
  next
    assume "has_type d ''sources_update''"
    then show ?thesis by (simp only: line_step_sources_update [OF d]) simp
  next
    assume c: "has_type d ''content''"
    show ?thesis
    proof (cases "concat_operand P (property d ''content'')")
      case None
      show ?thesis by (simp only: line_step_content_throws [OF d c None]) simp
    next
      case (Some t)
      show ?thesis by (simp only: line_step_content [OF d c Some]) simp
    qed
  next
    assume "has_type d ''done''"
    then show ?thesis by (simp only: line_step_done [OF d]) simp
  next
    assume "has_type d ''error''"
    then show ?thesis by (simp only: line_step_error [OF d]) simp
  qed
  with True show ?thesis by simp
qed

lemma last_split_nl_terminated: "p = [] \<or> last p = newline \<Longrightarrow> last (split_nl p) = []"
proof (induction p rule: rev_induct)
  case Nil
  show ?case by simp
next
  case (snoc c p)
  then have c: "c = newline" by simp
  have "split_nl (p @ [newline]) = butlast (split_nl p) @ split_nl (last (split_nl p) @ [newline])"
    by (rule split_nl_append)
  also have "split_nl (last (split_nl p) @ [newline]) = [last (split_nl p), []]"
    using split_nl_line [OF last_split_nl_no_newline, of p "[]"] by simp
  finally show ?case using c by simp
qed

lemma buffer_line_step: "buffer (line_step P aid l s) = buffer s"
  by (simp add: line_step_def handle_line_def try_block_def Let_def split: option.splits)

lemma chunk_step_line:
  assumes "buffer s = []" and "newline \<notin> set l"
  shows "chunk_step P aid (l @ [newline]) s = line_step P aid l s"
proof -
  have sp: "split_nl (l @ [newline]) = [l, []]"
    using split_nl_line [OF assms(2), of "[]"] by simp
  have "(line_step P aid l s)\<lparr>buffer := buffer (line_step P aid l s)\<rparr> = line_step P aid l s"
    by simp
  then have "(line_step P aid l s)\<lparr>buffer := []\<rparr> = line_step P aid l s"
    by (simp only: buffer_line_step assms(1))
  then show ?thesis using assms(1) sp
    by (simp add: chunk_step_def)
qed

lemma decimal_1700: "decimal 1700 = ''1700''"
  by code_simp

lemma decimal_1701: "decimal 1701 = ''1701''"
  by code_simp

lemma last_update_assistant:
  "ms \<noteq> [] \<Longrightarrow>
   last (update_assistant aid f ms) = (if msg_id (last ms) = aid then f (last ms) else last ms)"
  by (simp add: update_assistant_def last_map)

lemma update_assistant_Nil_iff: "update_assistant aid f ms = [] \<longleftrightarrow> ms = []"
  by (simp add: update_assistant_def)

subsection \<open>Rendering\<close>

lemma run_updater_locals:
  "accumulatedContent L = accumulatedContent L' \<Longrightarrow> cur_sources L = cur_sources L' \<Longrightarrow>
   run_updater L u = run_updater L' u"
  by (cases u) (simp_all add: fun_eq_iff)

lemma view_locals:
  assumes "accumulatedContent L = accumulatedContent L'" and "cur_sources L = cur_sources L'"
    and "pending s = pending s'" and "messages s = messages s'"
  shows "view L s = view L' s'"
proof -
  have "run_updater L = run_updater L'"
    using run_updater_locals [OF assms(1,2)] by (simp add: fun_eq_iff)
  then show ?thesis using assms(3,4) by (simp add: view_def)
qed

lemma messages_render: "messages (render s) = view s s"
  by (simp add: render_def view_def)

lemma pending_render: "pending (render s) = []"
  by (simp add: render_def)

lemma view_render: "view L (render s) = view s s"
  by (simp add: render_def view_def)

lemma render_locals:
  "accumulatedContent (render s) = accumulatedContent s" "cur_sources (render s) = cur_sources s"
  "buffer (render s) = buffer s" "events (render s) = events s" "toasts (render s) = toasts s"
  "isLoading (render s) = isLoading s"
  by (simp_all add: render_def)

lemma render_render: "render (render s) = render s"
  by (simp add: render_def)

lemma render_buffer: "render (s\<lparr>buffer := b\<rparr>) = (render s)\<lparr>buffer := b\<rparr>"
proof -
  have "run_updater (s\<lparr>buffer := b\<rparr>) = run_updater s"
    using run_updater_locals [of "s\<lparr>buffer := b\<rparr>" s] by (simp add: fun_eq_iff)
  then show ?thesis by (simp add: render_def)
qed

lemma render_toasts_isLoading:
  "render (s\<lparr>toasts := t, isLoading := b\<rparr>) = (render s)\<lparr>toasts := t, isLoading := b\<rparr>"
proof -
  have "run_updater (s\<lparr>toasts := t, isLoading := b\<rparr>) = run_updater s"
    using run_updater_locals [of "s\<lparr>toasts := t, isLoading := b\<rparr>" s] by (simp add: fun_eq_iff)
  then show ?thesis by (simp add: render_def)
qed

lemma decoder_part_render: "decoder_part (render s) = decoder_part s"
  by (simp add: render_def decoder_part_def)

lemma render_decoder_part: "render (decoder_part s) = decoder_part s"
  by (simp add: render_def decoder_part_def)

lemma decoder_part_idem: "decoder_part (decoder_part s) = decoder_part s"
  by (simp add: decoder_part_def)

lemma buffer_decoder_part: "buffer (decoder_part s) = buffer s"
  by (simp add: decoder_part_def)

lemma decoder_part_eqD:
  "decoder_part a = decoder_part b \<Longrightarrow> a\<lparr>messages := m, pending := q\<rparr> = b\<lparr>messages := m, pending := q\<rparr>"
proof -
  assume e: "decoder_part a = decoder_part b"
  have "a\<lparr>messages := m, pending := q\<rparr> = (decoder_part a)\<lparr>messages := m, pending := q\<rparr>" for a
    by (simp add: decoder_part_def)
  then show ?thesis using e by metis
qed

subsection \<open>The decoder does not read the messages\<close>

lemma try_block_decoder_part:
  "fst (try_block P aid l (decoder_part s)) = fst (try_block P aid l s) \<and>
   decoder_part (snd (try_block P aid l (decoder_part s))) = decoder_part (snd (try_block P aid l s))"
  by (simp add: try_block_def decoder_part_def Let_def split: option.splits)

lemma line_step_decoder_part:
  "decoder_part (line_step P aid l (decoder_part s)) = decoder_part (line_step P aid l s)"
proof -
  obtain e1 s1 where a: "try_block P aid l (decoder_part s) = (e1, s1)"
    by fastforce
  obtain e2 s2 where b: "try_block P aid l s = (e2, s2)"
    by fastforce
  from try_block_decoder_part [of P aid l s] a b have "decoder_part s1 = decoder_part s2"
    by simp
  then show ?thesis
    by (simp add: line_step_def handle_line_def a b decoder_part_idem split: option.splits)
qed

lemma fold_line_step_decoder_part:
  "decoder_part (fold (line_step P aid) ls (decoder_part s)) = decoder_part (fold (line_step P aid) ls s)"
proof (induction ls arbitrary: s)
  case Nil
  show ?case by (simp add: decoder_part_idem)
next
  case (Cons l ls)
  have "decoder_part (fold (line_step P aid) ls (line_step P aid l (decoder_part s))) =
        decoder_part (fold (line_step P aid) ls (decoder_part (line_step P aid l (decoder_part s))))"
    by (simp add: Cons.IH)
  also have "\<dots> = decoder_part (fold (line_step P aid) ls (decoder_part (line_step P aid l s)))"
    by (simp add: line_step_decoder_part)
  also have "\<dots> = decoder_part (fold (line_step P aid) ls (line_step P aid l s))"
    by (simp add: Cons.IH)
  finally show ?case by simp
qed

lemma decoder_part_buffer: "decoder_part (s\<lparr>buffer := b\<rparr>) = (decoder_part s)\<lparr>buffer := b\<rparr>"
  by (simp add: decoder_part_def)

lemma chunk_step_decoder_part:
  "decoder_part (chunk_step P aid c (decoder_part s)) = decoder_part (chunk_step P aid c s)"
  by (simp add: chunk_step_def buffer_decoder_part decoder_part_buffer fold_line_step_decoder_part)

lemma read_loop_decoder_part:
  "fst (read_loop P aid rs (decoder_part s)) = fst (read_loop P aid rs s) \<and>
   decoder_part (snd (read_loop P aid rs (decoder_part s))) = decoder_part (snd (read_loop P aid rs s))"
proof (induction rs arbitrary: s)
  case Nil
  show ?case by (simp add: decoder_part_idem)
next
  case (Cons r rs)
  show ?case
  proof (cases r)
    case (Chunk c)
    let ?E = "\<lambda>t. (fst (read_loop P aid rs t), decoder_part (snd (read_loop P aid rs t)))"
    have E: "?E (decoder_part t) = ?E t" for t
      using Cons.IH [of t] by simp
    have "?E (chunk_step P aid c (decoder_part s)) = ?E (decoder_part (chunk_step P aid c (decoder_part s)))"
      by (rule E [symmetric])
    also have "\<dots> = ?E (decoder_part (chunk_step P aid c s))"
      by (simp only: chunk_step_decoder_part)
    also have "\<dots> = ?E (chunk_step P aid c s)"
      by (rule E)
    finally show ?thesis using Chunk by (simp add: process_chunk_step)
  next
    case StreamDone
    then show ?thesis by (simp add: decoder_part_idem)
  next
    case ReadRejected
    then show ?thesis by (simp add: decoder_part_idem)
  next
    case Render
    have "decoder_part (render s) = decoder_part s"
      by (rule decoder_part_render)
    then show ?thesis
      using Render Cons.IH [of "render s"] Cons.IH [of s] by (simp add: render_decoder_part)
  qed
qed

subsection \<open>Ticks that keep the loop going\<close>

lemma reading_Cons: "reading (t # ts) \<longleftrightarrow> t \<noteq> StreamDone \<and> t \<noteq> ReadRejected \<and> reading ts"
  by (auto simp: reading_def)

lemma reading_append: "reading (ts @ us) \<longleftrightarrow> reading ts \<and> reading us"
  by (auto simp: reading_def)

lemma read_loop_reading:
  "reading ts \<Longrightarrow> read_loop P aid (ts @ rs) s = read_loop P aid rs (fold (tick_step P aid) ts s)"
proof (induction ts arbitrary: s)
  case Nil
  show ?case by simp
next
  case (Cons t ts)
  then show ?case
    by (cases t) (simp_all add: reading_Cons process_chunk_step)
qed

lemma buffer_feed:
  "reading ts \<Longrightarrow> newline \<notin> set (buffer s) \<Longrightarrow>
   buffer (fold (tick_step P aid) ts s) = last (split_nl (buffer s @ received ts))"
proof (induction ts arbitrary: s)
  case Nil
  then show ?case by (simp add: received_def split_nl_no_newline)
next
  case (Cons t ts)
  show ?case
  proof (cases t)
    case (Chunk c)
    have n: "newline \<notin> set (buffer (chunk_step P aid c s))"
      by (simp add: buffer_chunk_step last_split_nl_no_newline)
    have "split_nl (buffer s @ c @ received ts) =
        butlast (split_nl (buffer s @ c)) @ split_nl (last (split_nl (buffer s @ c)) @ received ts)"
      using split_nl_append [of "buffer s @ c" "received ts"] by simp
    then show ?thesis
      using Chunk Cons.prems Cons.IH [OF _ n]
      by (simp add: reading_Cons received_def buffer_chunk_step)
  next
    case Render
    then show ?thesis
      using Cons.prems Cons.IH [of "render s"]
      by (simp add: reading_Cons received_def render_locals)
  qed (use Cons.prems in \<open>simp_all add: reading_Cons\<close>)
qed

lemma decoder_part_feed:
  "reading ts \<Longrightarrow> newline \<notin> set (buffer s) \<Longrightarrow>
   decoder_part (fold (tick_step P aid) ts s) =
     decoder_part (chunk_step P aid (received ts) (decoder_part s))"
proof (induction ts arbitrary: s)
  case Nil
  then show ?case
    by (simp add: received_def chunk_step_Nil buffer_decoder_part decoder_part_idem)
next
  case (Cons t ts)
  show ?case
  proof (cases t)
    case (Chunk c)
    have n: "newline \<notin> set (buffer (chunk_step P aid c s))"
      by (simp add: buffer_chunk_step last_split_nl_no_newline)
    have r: "reading ts" using Cons.prems(1) by (simp add: reading_Cons)
    have "decoder_part (fold (tick_step P aid) ts (chunk_step P aid c s)) =
        decoder_part (chunk_step P aid (received ts) (decoder_part (chunk_step P aid c s)))"
      by (rule Cons.IH [OF r n])
    also have "\<dots> = decoder_part (chunk_step P aid (received ts) (chunk_step P aid c s))"
      by (rule chunk_step_decoder_part)
    also have "\<dots> = decoder_part (chunk_step P aid (c @ received ts) s)"
      by (simp only: chunk_step_append)
    also have "\<dots> = decoder_part (chunk_step P aid (c @ received ts) (decoder_part s))"
      by (rule chunk_step_decoder_part [symmetric])
    finally show ?thesis using Chunk by (simp add: received_def)
  next
    case Render
    have r: "reading ts" using Cons.prems(1) by (simp add: reading_Cons)
    have n: "newline \<notin> set (buffer (render s))"
      using Cons.prems(2) by (simp add: render_locals)
    show ?thesis
      using Render Cons.IH [OF r n] by (simp add: received_def decoder_part_render)
  qed (use Cons.prems in \<open>simp_all add: reading_Cons\<close>)
qed

subsection \<open>The loop seen line by line\<close>

lemma lines_of_simps [simp]:
  "lines_of [] = []" "lines_of (Handle l # acts) = l # lines_of acts"
  "lines_of (Rerender # acts) = lines_of acts" "lines_of (xs @ ys) = lines_of xs @ lines_of ys"
  "lines_of (map Handle ls) = ls"
  by (simp_all add: lines_of_def) (induction ls, simp_all)

lemma act_buffer: "act P aid a (s\<lparr>buffer := b\<rparr>) = (act P aid a s)\<lparr>buffer := b\<rparr>"
  by (cases a) (simp_all add: line_step_buffer render_buffer)

lemma fold_act_buffer:
  "fold (act P aid) acts (s\<lparr>buffer := b\<rparr>) = (fold (act P aid) acts s)\<lparr>buffer := b\<rparr>"
  by (induction acts arbitrary: s) (simp_all add: act_buffer)

lemma fold_act_Handle: "fold (act P aid) (map Handle ls) s = fold (line_step P aid) ls s"
  by (induction ls arbitrary: s) simp_all

lemma buffer_act: "buffer (act P aid a s) = buffer s"
  by (cases a) (simp_all add: buffer_line_step render_locals)

lemma feed_actions:
  "reading ts \<Longrightarrow> newline \<notin> set (buffer s) \<Longrightarrow>
   \<exists>acts. lines_of acts = butlast (split_nl (buffer s @ received ts)) \<and>
     fold (tick_step P aid) ts s =
       (fold (act P aid) acts s)\<lparr>buffer := last (split_nl (buffer s @ received ts))\<rparr>"
proof (induction ts arbitrary: s)
  case Nil
  have "s\<lparr>buffer := buffer s\<rparr> = s" by simp
  then have "lines_of [] = butlast (split_nl (buffer s @ received [])) \<and>
     fold (tick_step P aid) [] s =
       (fold (act P aid) [] s)\<lparr>buffer := last (split_nl (buffer s @ received []))\<rparr>"
    using Nil by (simp add: received_def split_nl_no_newline)
  then show ?case by blast
next
  case (Cons t ts)
  have r: "reading ts" using Cons.prems(1) by (simp add: reading_Cons)
  show ?case
  proof (cases t)
    case (Chunk c)
    let ?L1 = "butlast (split_nl (buffer s @ c))"
    let ?b1 = "last (split_nl (buffer s @ c))"
    let ?s1 = "chunk_step P aid c s"
    have n: "newline \<notin> set (buffer ?s1)"
      by (simp add: buffer_chunk_step last_split_nl_no_newline)
    have b1: "buffer ?s1 = ?b1" by (simp add: buffer_chunk_step)
    obtain acts where a: "lines_of acts = butlast (split_nl (?b1 @ received ts))"
      and f: "fold (tick_step P aid) ts ?s1 =
         (fold (act P aid) acts ?s1)\<lparr>buffer := last (split_nl (?b1 @ received ts))\<rparr>"
      using Cons.IH [OF r n] unfolding b1 by blast
    have sp: "split_nl (buffer s @ c @ received ts) = ?L1 @ split_nl (?b1 @ received ts)"
      using split_nl_append [of "buffer s @ c" "received ts"] by simp
    have rc: "received (Chunk c # ts) = c @ received ts"
      by (simp add: received_def)
    have s1: "?s1 = (fold (act P aid) (map Handle ?L1) s)\<lparr>buffer := ?b1\<rparr>"
      by (simp add: chunk_step_def fold_act_Handle)
    have "fold (act P aid) acts ?s1 = (fold (act P aid) (map Handle ?L1 @ acts) s)\<lparr>buffer := ?b1\<rparr>"
      by (subst s1) (simp add: fold_act_buffer)
    then have "fold (tick_step P aid) (Chunk c # ts) s =
        (fold (act P aid) (map Handle ?L1 @ acts) s)
          \<lparr>buffer := last (split_nl (buffer s @ received (Chunk c # ts)))\<rparr>"
      using f by (simp add: rc sp)
    moreover have "lines_of (map Handle ?L1 @ acts) =
        butlast (split_nl (buffer s @ received (Chunk c # ts)))"
      by (simp add: rc sp a butlast_append)
    ultimately show ?thesis unfolding Chunk by blast
  next
    case Render
    have n: "newline \<notin> set (buffer (render s))"
      using Cons.prems(2) by (simp add: render_locals)
    obtain acts where a: "lines_of acts = butlast (split_nl (buffer s @ received ts))"
      and f: "fold (tick_step P aid) ts (render s) =
         (fold (act P aid) acts (render s))\<lparr>buffer := last (split_nl (buffer s @ received ts))\<rparr>"
      using Cons.IH [OF r n] by (auto simp: render_locals)
    have rc: "received (Render # ts) = received ts"
      by (simp add: received_def)
    have "lines_of (Rerender # acts) = butlast (split_nl (buffer s @ received (Render # ts))) \<and>
      fold (tick_step P aid) (Render # ts) s =
        (fold (act P aid) (Rerender # acts) s)
          \<lparr>buffer := last (split_nl (buffer s @ received (Render # ts)))\<rparr>"
      using a f by (simp add: rc)
    then show ?thesis unfolding Render by blast
  qed (use Cons.prems in \<open>simp_all add: reading_Cons\<close>)
qed

lemma run_as_ticks:
  assumes "\<forall>l \<in> set (lines_of acts). newline \<notin> set l" and "buffer s = []"
  shows "fold (tick_step P aid) (ticks_of acts) s = fold (act P aid) acts s \<and>
         reading (ticks_of acts) \<and> received (ticks_of acts) = unlines (lines_of acts)"
  using assms
proof (induction acts arbitrary: s)
  case Nil
  show ?case by (simp add: ticks_of_def reading_def received_def unlines_def)
next
  case (Cons a acts)
  show ?case
  proof (cases a)
    case (Handle l)
    have n: "newline \<notin> set l" and rest: "\<forall>l \<in> set (lines_of acts). newline \<notin> set l"
      using Cons.prems(1) Handle by simp_all
    have step: "chunk_step P aid (l @ [newline]) s = line_step P aid l s"
      using Cons.prems(2) n by (rule chunk_step_line)
    have b: "buffer (line_step P aid l s) = []"
      using Cons.prems(2) by (simp add: buffer_line_step)
    show ?thesis
      using Cons.IH [OF rest b] Handle
      by (simp add: ticks_of_def step reading_def received_def unlines_def)
  next
    case Rerender
    have rest: "\<forall>l \<in> set (lines_of acts). newline \<notin> set l"
      using Cons.prems(1) Rerender by simp
    have b: "buffer (render s) = []"
      using Cons.prems(2) by (simp add: render_locals)
    show ?thesis
      using Cons.IH [OF rest b] Rerender
      by (simp add: ticks_of_def reading_def received_def unlines_def)
  qed
qed

lemma render_fold_Rerender:
  "lines_of acts = [] \<Longrightarrow> render (fold (act P aid) acts s) = render s"
proof (induction acts arbitrary: s)
  case Nil
  show ?case by simp
next
  case (Cons a acts)
  then show ?case by (cases a) (simp_all add: render_render)
qed

subsection \<open>The handler on a stream that ends\<close>

lemma toasts_line_step: "toasts (line_step P aid l s) = toasts s"
  by (simp add: line_step_def handle_line_def try_block_def Let_def split: option.splits)

lemma toasts_fold_line_step: "toasts (fold (line_step P aid) ls s) = toasts s"
  by (induction ls arbitrary: s) (simp_all add: toasts_line_step)

lemma toasts_tick_step: "toasts (tick_step P aid t s) = toasts s"
  by (cases t) (simp_all add: chunk_step_def toasts_fold_line_step render_locals)

lemma toasts_feed: "toasts (fold (tick_step P aid) ts s) = toasts s"
  by (induction ts arbitrary: s) (simp_all add: toasts_tick_step)

lemma handleSendMessage_stream:
  assumes "String_trim P message \<noteq> []" and "\<not> isLoading s" and "200 \<le> st" and "st \<le> 299"
    and "reading ts"
  shows "handleSendMessage P clk (Response st (Some (ts @ [StreamDone]))) message s =
    (fold (tick_step P (''msg-'' @ decimal (now_assistant clk) @ ''-assistant'')) ts
       (s\<lparr>isLoading := True,
          pending := pending s @
            [Append \<lparr>msg_id = ''msg-'' @ decimal (now_user clk) @ ''-user'', content = message,
               role = User, timestamp = date_user clk, isStreaming = None, sources = None\<rparr>,
             Append \<lparr>msg_id = ''msg-'' @ decimal (now_assistant clk) @ ''-assistant'', content = [],
               role = Assistant, timestamp = date_assistant clk, isStreaming = Some True,
               sources = None\<rparr>],
          accumulatedContent := [], cur_sources := JArr [],
          buffer := [], events := []\<rparr>))
      \<lparr>toasts := toasts s @ [Success ''Response completed!''],
        isLoading := False\<rparr>"
  using assms
  by (simp add: handleSendMessage_def try_stream_def Let_def read_loop_reading toasts_feed)

subsection \<open>What the updaters leave alone\<close>

lemma frame_update_assistant:
  "(\<And>m. frame (f m) = frame m) \<Longrightarrow> map frame (update_assistant aid f ms) = map frame ms"
  by (induction ms) (simp_all add: update_assistant_def)

lemma frame_run_updater:
  "map frame prev = map frame prev' \<Longrightarrow>
   map frame (run_updater L u prev) = map frame (run_updater L' u prev')"
  by (cases u) (simp_all add: frame_update_assistant frame_def)

lemma frame_fold:
  "map frame ms = map frame ms' \<Longrightarrow>
   map frame (fold (run_updater L) us ms) = map frame (fold (run_updater L') us ms')"
proof (induction us arbitrary: ms ms')
  case Nil
  then show ?case by simp
next
  case (Cons u us)
  show ?case
    using Cons.IH [OF frame_run_updater [OF Cons.prems, of L u L']] by simp
qed

lemma frame_view: "map frame (view L s) = map frame (view L' s)"
  by (simp add: view_def frame_fold)

lemma last_frame:
  assumes "map frame xs = map frame ys" and "ys \<noteq> []"
  shows "xs \<noteq> [] \<and> frame (last xs) = frame (last ys)"
proof -
  have "length xs = length ys"
    using assms(1) by (rule map_eq_imp_length_eq)
  with assms(2) have x: "xs \<noteq> []" by auto
  have "frame (last xs) = last (map frame xs)"
    using x by (simp add: last_map)
  also have "\<dots> = frame (last ys)"
    using assms by (simp add: last_map)
  finally show ?thesis using x by simp
qed

lemma run_updater_no_shows:
  "\<not> shows_sources u \<Longrightarrow> run_updater L u = run_updater L' u"
  by (cases u) (simp_all add: fun_eq_iff)

lemma view_no_shows:
  assumes "\<not> list_ex shows_sources (pending s)"
  shows "view L s = view L' s"
proof -
  have "fold (run_updater L) (pending s) (messages s) = fold (run_updater L') (pending s) (messages s)"
  proof (rule fold_cong)
    fix u assume "u \<in> set (pending s)"
    with assms have "\<not> shows_sources u" by (auto simp: list_ex_iff)
    then show "run_updater L u = run_updater L' u" by (rule run_updater_no_shows)
  qed simp_all
  then show ?thesis by (simp add: view_def)
qed

lemma view_snoc:
  "pending s' = pending s @ [u] \<Longrightarrow> messages s' = messages s \<Longrightarrow>
   view L s' = run_updater L u (view L s)"
  by (simp add: view_def)

lemma message_eqI:
  "msg_id m = a \<Longrightarrow> content m = c \<Longrightarrow> role m = r \<Longrightarrow> timestamp m = t \<Longrightarrow>
   isStreaming m = i \<Longrightarrow> sources m = x \<Longrightarrow>
   m = \<lparr>msg_id = a, content = c, role = r, timestamp = t, isStreaming = i, sources = x\<rparr>"
  by (cases m) simp

subsection \<open>The message on screen follows the locals\<close>

lemma showing_render: "showing aid r ts st eff s \<Longrightarrow> showing aid r ts st eff (render s)"
  by (simp add: showing_def view_render render_locals)

lemma showing_events: "showing aid r ts st eff s \<Longrightarrow> showing aid r ts st eff (s\<lparr>events := e\<rparr>)"
proof -
  have "view (s\<lparr>events := e\<rparr>) (s\<lparr>events := e\<rparr>) = view s s"
    by (rule view_locals) simp_all
  then show "showing aid r ts st eff s \<Longrightarrow> showing aid r ts st eff (s\<lparr>events := e\<rparr>)"
    by (simp add: showing_def)
qed

lemma showing_frame:
  assumes "showing aid r ts st eff s"
  shows "view L s \<noteq> [] \<and> msg_id (last (view L s)) = aid \<and> role (last (view L s)) = r \<and>
         timestamp (last (view L s)) = ts"
proof -
  have ne: "view s s \<noteq> []" and "frame (last (view s s)) = (aid, r, ts)"
    using assms by (simp_all add: showing_def frame_def)
  with last_frame [OF frame_view [of L s s] ne] show ?thesis
    by (simp add: frame_def)
qed

lemma showing_content:
  assumes "showing aid r ts st eff s"
  shows "showing aid r ts (Some True) True
           (s\<lparr>accumulatedContent := acc, pending := pending s @ [ShowContent aid], events := e\<rparr>)"
proof -
  let ?s' = "s\<lparr>accumulatedContent := acc, pending := pending s @ [ShowContent aid], events := e\<rparr>"
  have v: "view ?s' ?s' = run_updater ?s' (ShowContent aid) (view ?s' s)"
    by (rule view_snoc) simp_all
  have f: "view ?s' s \<noteq> []" "msg_id (last (view ?s' s)) = aid" "role (last (view ?s' s)) = r"
    "timestamp (last (view ?s' s)) = ts"
    using showing_frame [OF assms, of ?s'] by simp_all
  have "last (view ?s' ?s') =
      (last (view ?s' s))\<lparr>content := acc, isStreaming := Some True, sources := Some (cur_sources s)\<rparr>"
    using f by (simp add: v last_update_assistant)
  then have "last (view ?s' ?s') =
      \<lparr>msg_id = aid, content = acc, role = r, timestamp = ts, isStreaming = Some True,
        sources = Some (cur_sources s)\<rparr>"
    using f by (intro message_eqI) simp_all
  moreover have "view ?s' ?s' \<noteq> []"
    using f by (simp add: v update_assistant_Nil_iff)
  ultimately show ?thesis by (simp add: showing_def)
qed

lemma showing_done:
  assumes "showing aid r ts st eff s"
  shows "showing aid r ts (Some False) eff (s\<lparr>pending := pending s @ [ShowDone aid], events := e\<rparr>)"
proof -
  let ?s' = "s\<lparr>pending := pending s @ [ShowDone aid], events := e\<rparr>"
  have v: "view ?s' ?s' = run_updater ?s' (ShowDone aid) (view ?s' s)"
    by (rule view_snoc) simp_all
  have same: "view ?s' s = view s s"
    by (rule view_locals) simp_all
  have ne: "view s s \<noteq> []" and l: "last (view s s) =
        \<lparr>msg_id = aid, content = accumulatedContent s, role = r, timestamp = ts,
          isStreaming = st, sources = (if eff then Some (cur_sources s) else None)\<rparr>"
    using assms by (simp_all add: showing_def)
  have "last (view ?s' ?s') = (last (view s s))\<lparr>isStreaming := Some False\<rparr>"
    using ne l by (simp add: v same last_update_assistant)
  then have "last (view ?s' ?s') =
        \<lparr>msg_id = aid, content = accumulatedContent s, role = r, timestamp = ts,
          isStreaming = Some False, sources = (if eff then Some (cur_sources s) else None)\<rparr>"
    by (simp add: l)
  moreover have "view ?s' ?s' \<noteq> []"
    using ne by (simp add: v same update_assistant_Nil_iff)
  ultimately show ?thesis by (simp add: showing_def)
qed

lemma showing_sources:
  assumes "showing aid r ts st False s" and "\<not> list_ex shows_sources (pending s)"
  shows "showing aid r ts st False (s\<lparr>cur_sources := S, events := e\<rparr>)"
proof -
  let ?s' = "s\<lparr>cur_sources := S, events := e\<rparr>"
  have "view ?s' ?s' = view ?s' s"
    by (simp add: view_def)
  also have "\<dots> = view s s"
    using assms(2) by (rule view_no_shows)
  finally show ?thesis using assms(1) by (simp add: showing_def)
qed

subsection \<open>A run whose lines carry \<open>content\<close> records only\<close>

lemma content_run:
  assumes "list_all2 (\<lambda>l d. parsed P l = Some d \<and> has_type d ''content'')
             (filter (decodes P) (lines_of acts)) ds"
    and "showing aid r ts st eff s"
  shows "showing aid r ts (if list_ex (payload_shown P) ds then Some True else st)
           (eff \<or> list_ex (payload_shown P) ds) (fold (act P aid) acts s) \<and>
         accumulatedContent (fold (act P aid) acts s) =
           accumulatedContent s @ concat (map (payload_text P) ds) \<and>
         cur_sources (fold (act P aid) acts s) = cur_sources s \<and>
         events (fold (act P aid) acts s) =
           events s @ map (\<lambda>d. EvContent (property d ''content'')) ds \<and>
         (ds = [] \<longrightarrow> \<not> list_ex shows_sources (pending s) \<longrightarrow>
            \<not> list_ex shows_sources (pending (fold (act P aid) acts s)))"
  using assms
proof (induction acts arbitrary: s ds st eff)
  case Nil
  then show ?case by simp
next
  case (Cons a acts)
  show ?case
  proof (cases a)
    case Rerender
    have sh: "showing aid r ts st eff (render s)"
      using Cons.prems(2) by (rule showing_render)
    have la: "list_all2 (\<lambda>l d. parsed P l = Some d \<and> has_type d ''content'')
             (filter (decodes P) (lines_of acts)) ds"
      using Cons.prems(1) Rerender by simp
    show ?thesis
      using Cons.IH [OF la sh] Rerender by (simp add: render_locals pending_render)
  next
    case (Handle l)
    show ?thesis
    proof (cases "decodes P l")
      case False
      have la: "list_all2 (\<lambda>l d. parsed P l = Some d \<and> has_type d ''content'')
             (filter (decodes P) (lines_of acts)) ds"
        using Cons.prems(1) Handle False by simp
      show ?thesis
        using Cons.IH [OF la Cons.prems(2)] Handle False by (simp add: line_step_undecodable)
    next
      case True
      then obtain d ds' where ds: "ds = d # ds'" and d: "parsed P l = Some d"
        and c: "has_type d ''content''"
        and la: "list_all2 (\<lambda>l d. parsed P l = Some d \<and> has_type d ''content'')
             (filter (decodes P) (lines_of acts)) ds'"
        using Cons.prems(1) Handle by (auto simp: list_all2_Cons1)
      show ?thesis
      proof (cases "concat_operand P (property d ''content'')")
        case None
        let ?s1 = "s\<lparr>events := events s @ [EvContent (property d ''content'')]\<rparr>"
        have s1: "line_step P aid l s = ?s1"
          using d c None by (rule line_step_content_throws)
        have sh: "showing aid r ts st eff ?s1"
          using Cons.prems(2) by (rule showing_events)
        have p: "payload_text P d = []" "\<not> payload_shown P d"
          using None by (simp_all add: payload_text_def payload_shown_def)
        show ?thesis
          using Cons.IH [OF la sh] Handle by (simp add: s1 ds p)
      next
        case (Some t)
        let ?s1 = "s\<lparr>accumulatedContent := accumulatedContent s @ t,
             pending := pending s @ [ShowContent aid],
             events := events s @ [EvContent (property d ''content'')]\<rparr>"
        have s1: "line_step P aid l s = ?s1"
          using d c Some by (rule line_step_content)
        have sh: "showing aid r ts (Some True) True ?s1"
          using Cons.prems(2) by (rule showing_content)
        have p: "payload_text P d = t" "payload_shown P d"
          using Some by (simp_all add: payload_text_def payload_shown_def)
        show ?thesis
          using Cons.IH [OF la sh] Handle by (simp add: s1 ds p)
      qed
    qed
  qed
qed

subsection \<open>Cutting a run at a line\<close>

lemma actions_split_Cons:
  "filter p (lines_of acts) = x # xs \<Longrightarrow>
   \<exists>a1 a2. acts = a1 @ Handle x # a2 \<and> filter p (lines_of a1) = [] \<and>
     filter p (lines_of a2) = xs \<and> p x"
proof (induction acts)
  case Nil
  then show ?case by simp
next
  case (Cons a acts)
  show ?case
  proof (cases a)
    case Rerender
    then obtain a1 a2 where "acts = a1 @ Handle x # a2" "filter p (lines_of a1) = []"
      "filter p (lines_of a2) = xs" "p x"
      using Cons by auto
    then have "a # acts = (Rerender # a1) @ Handle x # a2 \<and> filter p (lines_of (Rerender # a1)) = [] \<and>
        filter p (lines_of a2) = xs \<and> p x"
      using Rerender by simp
    then show ?thesis by blast
  next
    case (Handle l)
    show ?thesis
    proof (cases "p l")
      case True
      then have "a # acts = [] @ Handle x # acts \<and> filter p (lines_of []) = [] \<and>
        filter p (lines_of acts) = xs \<and> p x"
        using Cons.prems Handle by simp
      then show ?thesis by blast
    next
      case False
      then obtain a1 a2 where "acts = a1 @ Handle x # a2" "filter p (lines_of a1) = []"
        "filter p (lines_of a2) = xs" "p x"
        using Cons Handle by auto
      then have "a # acts = (Handle l # a1) @ Handle x # a2 \<and>
          filter p (lines_of (Handle l # a1)) = [] \<and> filter p (lines_of a2) = xs \<and> p x"
        using Handle False by simp
      then show ?thesis by blast
    qed
  qed
qed

lemma actions_split_append:
  "filter p (lines_of acts) = xs @ ys \<Longrightarrow>
   \<exists>a1 a2. acts = a1 @ a2 \<and> filter p (lines_of a1) = xs \<and> filter p (lines_of a2) = ys"
proof (induction xs arbitrary: acts)
  case Nil
  then have "acts = [] @ acts \<and> filter p (lines_of []) = [] \<and> filter p (lines_of acts) = ys"
    by simp
  then show ?case by blast
next
  case (Cons x xs)
  then obtain b1 b2 where b: "acts = b1 @ Handle x # b2" "filter p (lines_of b1) = []"
    "filter p (lines_of b2) = xs @ ys" "p x"
    using actions_split_Cons [of p acts x "xs @ ys"] by auto
  obtain c1 c2 where c: "b2 = c1 @ c2" "filter p (lines_of c1) = xs" "filter p (lines_of c2) = ys"
    using Cons.IH [OF b(3)] by blast
  have "acts = (b1 @ Handle x # c1) @ c2 \<and> filter p (lines_of (b1 @ Handle x # c1)) = x # xs \<and>
      filter p (lines_of c2) = ys"
    using b c by simp
  then show ?case by blast
qed

subsection \<open>Runs on the same text, and runs with a rest\<close>

lemma decoder_part_fields:
  "decoder_part a = decoder_part b \<Longrightarrow>
   toasts a = toasts b \<and> isLoading a = isLoading b \<and> events a = events b \<and>
   accumulatedContent a = accumulatedContent b \<and> cur_sources a = cur_sources b \<and>
   buffer a = buffer b"
proof -
  assume e: "decoder_part a = decoder_part b"
  have "toasts (decoder_part a) = toasts (decoder_part b)"
    "isLoading (decoder_part a) = isLoading (decoder_part b)"
    "events (decoder_part a) = events (decoder_part b)"
    "accumulatedContent (decoder_part a) = accumulatedContent (decoder_part b)"
    "cur_sources (decoder_part a) = cur_sources (decoder_part b)"
    "buffer (decoder_part a) = buffer (decoder_part b)"
    by (simp_all only: e)
  then show ?thesis by (simp add: decoder_part_def)
qed

lemma decoder_part_finish:
  assumes "decoder_part a = decoder_part b"
  shows "decoder_part (a\<lparr>toasts := toasts a @ t\<rparr>) = decoder_part (b\<lparr>toasts := toasts b @ t\<rparr>)"
    and "decoder_part (a\<lparr>isLoading := x\<rparr>) = decoder_part (b\<lparr>isLoading := x\<rparr>)"
    and "decoder_part (catch_stream aid a) = decoder_part (catch_stream aid b)"
proof -
  have t: "toasts a = toasts b"
    using decoder_part_fields [OF assms] by simp
  have "decoder_part (a\<lparr>toasts := toasts a @ t\<rparr>) = (decoder_part a)\<lparr>toasts := toasts a @ t\<rparr>"
    by (simp add: decoder_part_def)
  moreover have "decoder_part (b\<lparr>toasts := toasts b @ t\<rparr>) = (decoder_part b)\<lparr>toasts := toasts b @ t\<rparr>"
    by (simp add: decoder_part_def)
  ultimately show one: "decoder_part (a\<lparr>toasts := toasts a @ t\<rparr>) = decoder_part (b\<lparr>toasts := toasts b @ t\<rparr>)"
    using assms t by simp
  have "decoder_part (a\<lparr>isLoading := x\<rparr>) = (decoder_part a)\<lparr>isLoading := x\<rparr>"
    "decoder_part (b\<lparr>isLoading := x\<rparr>) = (decoder_part b)\<lparr>isLoading := x\<rparr>"
    by (simp_all add: decoder_part_def)
  then show "decoder_part (a\<lparr>isLoading := x\<rparr>) = decoder_part (b\<lparr>isLoading := x\<rparr>)"
    using assms by simp
  have "decoder_part (catch_stream aid c) =
      (decoder_part c)\<lparr>toasts := toasts c @ [Failure ''Failed to get response. Please try again.'']\<rparr>" for c
    by (simp add: decoder_part_def catch_stream_def)
  then show "decoder_part (catch_stream aid a) = decoder_part (catch_stream aid b)"
    using assms t by simp
qed

lemma handleSendMessage_decoder_part:
  assumes "\<And>a t. buffer t = [] \<Longrightarrow> fst (read_loop P a r1 t) = fst (read_loop P a r2 t)"
    and "\<And>a t. buffer t = [] \<Longrightarrow>
           decoder_part (snd (read_loop P a r1 t)) = decoder_part (snd (read_loop P a r2 t))"
  shows "decoder_part (handleSendMessage P clk (Response st (Some r1)) message s) =
         decoder_part (handleSendMessage P clk (Response st (Some r2)) message s)"
proof -
  define aid where "aid = ''msg-'' @ decimal (now_assistant clk) @ ''-assistant''"
  define t0 where "t0 = s\<lparr>isLoading := True,
          pending := pending s @
            [Append \<lparr>msg_id = ''msg-'' @ decimal (now_user clk) @ ''-user'', content = message,
               role = User, timestamp = date_user clk, isStreaming = None, sources = None\<rparr>,
             Append \<lparr>msg_id = aid, content = [],
               role = Assistant, timestamp = date_assistant clk, isStreaming = Some True,
               sources = None\<rparr>],
          accumulatedContent := [], cur_sources := JArr [],
          buffer := [], events := []\<rparr>"
  define post where "post = (\<lambda>x :: status \<times> state.
     case x of
       (Returned, s3) \<Rightarrow> s3\<lparr>toasts := toasts s3 @ [Success ''Response completed!''], isLoading := False\<rparr>
     | (Thrown e, s3) \<Rightarrow> (catch_stream aid s3)\<lparr>isLoading := False\<rparr>
     | (Awaiting, s3) \<Rightarrow> s3)"
  have h: "handleSendMessage P clk (Response st (Some r)) message s =
      (if String_trim P message = [] \<or> isLoading s then s
       else if \<not> (200 \<le> st \<and> st \<le> 299)
         then (catch_stream aid (t0\<lparr>accumulatedContent := accumulatedContent s,
                 cur_sources := cur_sources s, buffer := buffer s, events := events s\<rparr>))
              \<lparr>isLoading := False\<rparr>
       else post (read_loop P aid r t0))" for r
    by (simp add: handleSendMessage_def try_stream_def Let_def post_def t0_def aid_def
        split: prod.splits status.splits)
  have b: "buffer t0 = []"
    by (simp add: t0_def)
  obtain x1 s1 where r1: "read_loop P aid r1 t0 = (x1, s1)" by fastforce
  obtain x2 s2 where r2: "read_loop P aid r2 t0 = (x2, s2)" by fastforce
  have x: "x1 = x2" and d: "decoder_part s1 = decoder_part s2"
    using assms(1) [OF b, of aid] assms(2) [OF b, of aid] by (simp_all add: r1 r2)
  have "decoder_part (post (x1, s1)) = decoder_part (post (x2, s2))"
  proof (cases x1)
    case Returned
    have "decoder_part ((s1\<lparr>toasts := toasts s1 @ [Success ''Response completed!'']\<rparr>)\<lparr>isLoading := False\<rparr>) =
          decoder_part ((s2\<lparr>toasts := toasts s2 @ [Success ''Response completed!'']\<rparr>)\<lparr>isLoading := False\<rparr>)"
      by (intro decoder_part_finish d)
    then show ?thesis using Returned x by (simp add: post_def)
  next
    case (Thrown e)
    have "decoder_part ((catch_stream aid s1)\<lparr>isLoading := False\<rparr>) =
          decoder_part ((catch_stream aid s2)\<lparr>isLoading := False\<rparr>)"
      by (intro decoder_part_finish d)
    then show ?thesis using Thrown x by (simp add: post_def)
  next
    case Awaiting
    then show ?thesis using x d by (simp add: post_def)
  qed
  then show ?thesis by (simp add: h r1 r2)
qed

lemma read_loop_same_text:
  assumes "reading ts1" and "reading ts2" and "received ts1 = received ts2"
    and "newline \<notin> set (buffer t)"
  shows "fst (read_loop P a (ts1 @ rs) t) = fst (read_loop P a (ts2 @ rs) t) \<and>
         decoder_part (snd (read_loop P a (ts1 @ rs) t)) =
           decoder_part (snd (read_loop P a (ts2 @ rs) t))"
proof -
  let ?X1 = "fold (tick_step P a) ts1 t" and ?X2 = "fold (tick_step P a) ts2 t"
  have d: "decoder_part ?X1 = decoder_part ?X2"
    using assms by (simp add: decoder_part_feed)
  have "fst (read_loop P a rs ?X1) = fst (read_loop P a rs (decoder_part ?X1))"
    "decoder_part (snd (read_loop P a rs ?X1)) =
       decoder_part (snd (read_loop P a rs (decoder_part ?X1)))"
    using read_loop_decoder_part [of P a rs ?X1] by simp_all
  moreover have "fst (read_loop P a rs ?X2) = fst (read_loop P a rs (decoder_part ?X2))"
    "decoder_part (snd (read_loop P a rs ?X2)) =
       decoder_part (snd (read_loop P a rs (decoder_part ?X2)))"
    using read_loop_decoder_part [of P a rs ?X2] by simp_all
  ultimately show ?thesis
    using assms(1,2) by (simp add: read_loop_reading d)
qed

lemma chunk_step_residual:
  assumes "newline \<notin> set r" and "body = [] \<or> last body = newline" and "buffer t = []"
  shows "chunk_step P a (body @ r) t = (chunk_step P a body t)\<lparr>buffer := r\<rparr>"
proof -
  have "buffer (chunk_step P a body t) = []"
    using assms(2,3) by (simp add: buffer_chunk_step last_split_nl_terminated)
  then have "chunk_step P a r (chunk_step P a body t) = (chunk_step P a body t)\<lparr>buffer := r\<rparr>"
    using assms(1) by (simp add: chunk_step_def split_nl_no_newline)
  then show ?thesis by (simp add: chunk_step_append)
qed

lemma split_nl_residual:
  assumes "newline \<notin> set r" and "body = [] \<or> last body = newline"
  shows "butlast (split_nl (body @ r)) = butlast (split_nl body)"
    and "last (split_nl (body @ r)) = r"
proof -
  have "split_nl (body @ r) = butlast (split_nl body) @ split_nl (last (split_nl body) @ r)"
    by (rule split_nl_append)
  then have "split_nl (body @ r) = butlast (split_nl body) @ [r]"
    using assms by (simp add: last_split_nl_terminated split_nl_no_newline)
  then show "butlast (split_nl (body @ r)) = butlast (split_nl body)"
    and "last (split_nl (body @ r)) = r"
    by simp_all
qed

lemma render_residual:
  assumes "reading tr" and "newline \<notin> set (received tr)" and "buffer s1 = []"
  shows "render (fold (tick_step P aid) tr s1) = (render s1)\<lparr>buffer := received tr\<rparr>"
proof -
  have n: "newline \<notin> set (buffer s1)"
    using assms(3) by simp
  obtain acts where a: "lines_of acts = butlast (split_nl (buffer s1 @ received tr))"
    and f: "fold (tick_step P aid) tr s1 =
       (fold (act P aid) acts s1)\<lparr>buffer := last (split_nl (buffer s1 @ received tr))\<rparr>"
    using feed_actions [OF assms(1) n] by blast
  have "lines_of acts = []" and "last (split_nl (buffer s1 @ received tr)) = received tr"
    using a assms(2,3) by (simp_all add: split_nl_no_newline)
  then show ?thesis
    by (simp add: f render_buffer render_fold_Rerender)
qed

lemma handleSendMessage_refused:
  assumes "String_trim P message = [] \<or> isLoading s \<or> \<not> (200 \<le> st \<and> st \<le> 299)"
  shows "handleSendMessage P clk (Response st (Some r1)) message s =
         handleSendMessage P clk (Response st (Some r2)) message s"
  using assms by (auto simp: handleSendMessage_def try_stream_def Let_def)

subsection \<open>The start of a call, and what writes \<open>sources\<close>\<close>

lemma showing_start:
  assumes "pending s = []"
  shows "showing aid Assistant ts (Some True) False
           (s\<lparr>isLoading := True,
              pending := pending s @
                [Append u,
                 Append \<lparr>msg_id = aid, content = [], role = Assistant, timestamp = ts,
                   isStreaming = Some True, sources = None\<rparr>],
              accumulatedContent := [], cur_sources := JArr [], buffer := [], events := []\<rparr>)"
  using assms by (simp add: showing_def view_def)

lemma pending_shows_sources_only_by:
  assumes "\<not> (\<exists>d. parsed P l = Some d \<and> (has_type d ''content'' \<or> has_type d ''sources_update''))"
  shows "filter shows_sources (pending (line_step P aid l t)) = filter shows_sources (pending t)"
proof (cases "decodes P l")
  case False
  then show ?thesis by (simp add: line_step_undecodable)
next
  case True
  then obtain d where d: "parsed P l = Some d" and
    t: "has_type d ''sources'' \<or> has_type d ''sources_update'' \<or> has_type d ''content'' \<or>
     has_type d ''done'' \<or> has_type d ''error''"
    by (rule decodes_cases)
  from assms d have "\<not> has_type d ''content''" and "\<not> has_type d ''sources_update''"
    by simp_all
  with t consider "has_type d ''sources''" | "has_type d ''done''" | "has_type d ''error''"
    by blast
  then show ?thesis
  proof cases
    case 1
    then show ?thesis by (simp add: line_step_sources [OF d])
  next
    case 2
    then show ?thesis by (simp add: line_step_done [OF d])
  next
    case 3
    then show ?thesis by (simp add: line_step_error [OF d])
  qed
qed

lemma take_update_assistant:
  "take n (update_assistant aid f ms) = update_assistant aid f (take n ms)"
  by (simp add: update_assistant_def take_map)

lemma sources_update_assistant:
  "(\<And>m. sources (f m) = sources m) \<Longrightarrow> map sources (update_assistant aid f ms) = map sources ms"
  by (induction ms) (simp_all add: update_assistant_def)

lemma length_update_assistant: "length (update_assistant aid f ms) = length ms"
  by (simp add: update_assistant_def)

lemma run_updater_keeps_sources:
  assumes "\<not> shows_sources u" and "n \<le> length ms"
  shows "n \<le> length (run_updater L u ms) \<and>
         map sources (take n (run_updater L u ms)) = map sources (take n ms)"
  using assms
  by (cases u) (simp_all add: take_update_assistant sources_update_assistant
      length_update_assistant)

lemma fold_keeps_sources:
  "\<not> list_ex shows_sources us \<Longrightarrow> n \<le> length ms \<Longrightarrow>
   map sources (take n (fold (run_updater L) us ms)) = map sources (take n ms)"
proof (induction us arbitrary: ms)
  case Nil
  show ?case by simp
next
  case (Cons u us)
  have u: "\<not> shows_sources u" and us: "\<not> list_ex shows_sources us"
    using Cons.prems(1) by simp_all
  show ?case
    using run_updater_keeps_sources [OF u Cons.prems(2), of L]
      Cons.IH [OF us, of "run_updater L u ms"]
    by simp
qed

lemma sources_kept_by_render:
  "\<not> list_ex shows_sources (pending v) \<Longrightarrow>
   map sources (take (length (messages v)) (messages (render v))) = map sources (messages v)"
  using fold_keeps_sources [of "pending v" "length (messages v)" "messages v" v]
  by (simp add: render_def)

lemmas chat_run_defs =
  handleSendMessage_def try_stream_def catch_stream_def process_chunk_def pop_def
  or_empty_string_def handle_line_def try_block_def startsWith_def update_assistant_def
  concat_operand_def or_empty_array_def render_def demo_defs decimal_1700 decimal_1701 Let_def
subsection \<open>The claims about the decoder\<close>

text \<open>
  Claim C2 (chunking invariance). Two runs receive the same text, cut into chunks in two
  ways, with React rendering wherever it does in each. The read loop, started with an empty
  carry-over buffer, ends alike in both, whatever follows (\<open>done\<close>, a rejected read, more
  chunks, or nothing yet): with the same events in the same order, and in states that can
  differ in the messages and in the queue of updaters only. So does \<open>handleSendMessage\<close>.
  The text need not even end with a line break.
\<close>

theorem chunking_invariance:
  assumes "reading ts1" and "reading ts2" and "received ts1 = received ts2"
  shows "fst (read_loop P aid (ts1 @ rs) (s\<lparr>buffer := []\<rparr>)) =
           fst (read_loop P aid (ts2 @ rs) (s\<lparr>buffer := []\<rparr>)) \<and>
         events (snd (read_loop P aid (ts1 @ rs) (s\<lparr>buffer := []\<rparr>))) =
           events (snd (read_loop P aid (ts2 @ rs) (s\<lparr>buffer := []\<rparr>))) \<and>
         (snd (read_loop P aid (ts1 @ rs) (s\<lparr>buffer := []\<rparr>)))\<lparr>messages := m, pending := q\<rparr> =
           (snd (read_loop P aid (ts2 @ rs) (s\<lparr>buffer := []\<rparr>)))\<lparr>messages := m, pending := q\<rparr> \<and>
         events (handleSendMessage P clk (Response st (Some (ts1 @ rs))) message s) =
           events (handleSendMessage P clk (Response st (Some (ts2 @ rs))) message s) \<and>
         (handleSendMessage P clk (Response st (Some (ts1 @ rs))) message s)
             \<lparr>messages := m, pending := q\<rparr> =
           (handleSendMessage P clk (Response st (Some (ts2 @ rs))) message s)
             \<lparr>messages := m, pending := q\<rparr>"
proof -
  have loop: "fst (read_loop P a (ts1 @ rs) t) = fst (read_loop P a (ts2 @ rs) t) \<and>
         decoder_part (snd (read_loop P a (ts1 @ rs) t)) =
           decoder_part (snd (read_loop P a (ts2 @ rs) t))"
    if "buffer t = []" for a t
    using assms that by (intro read_loop_same_text) simp_all
  have l0: "decoder_part (snd (read_loop P aid (ts1 @ rs) (s\<lparr>buffer := []\<rparr>))) =
           decoder_part (snd (read_loop P aid (ts2 @ rs) (s\<lparr>buffer := []\<rparr>)))"
    using loop [of "s\<lparr>buffer := []\<rparr>" aid] by simp
  have h: "decoder_part (handleSendMessage P clk (Response st (Some (ts1 @ rs))) message s) =
         decoder_part (handleSendMessage P clk (Response st (Some (ts2 @ rs))) message s)"
    by (rule handleSendMessage_decoder_part) (simp_all add: loop)
  show ?thesis
    using loop [of "s\<lparr>buffer := []\<rparr>" aid] decoder_part_fields [OF l0] decoder_part_fields [OF h]
      decoder_part_eqD [OF l0, where m = m and q = q] decoder_part_eqD [OF h, where m = m and q = q]
    by simp
qed

theorem chunking_invariance_witness:
  "reading [Chunk (hel_line @ newline # take 9 sources_line), Render,
            Chunk (drop 9 sources_line @ [newline])] \<and>
   reading [Chunk (hel_line @ newline # sources_line @ [newline])] \<and>
   received [Chunk (hel_line @ newline # take 9 sources_line), Render,
             Chunk (drop 9 sources_line @ [newline])] =
     received [Chunk (hel_line @ newline # sources_line @ [newline])] \<and>
   fst (read_loop demo ''a''
         ([Chunk (hel_line @ newline # take 9 sources_line), Render,
           Chunk (drop 9 sources_line @ [newline])] @ [StreamDone]) (idle\<lparr>buffer := []\<rparr>)) =
     fst (read_loop demo ''a''
         ([Chunk (hel_line @ newline # sources_line @ [newline])] @ [StreamDone])
         (idle\<lparr>buffer := []\<rparr>)) \<and>
   events (snd (read_loop demo ''a''
         ([Chunk (hel_line @ newline # take 9 sources_line), Render,
           Chunk (drop 9 sources_line @ [newline])] @ [StreamDone]) (idle\<lparr>buffer := []\<rparr>))) =
     events (snd (read_loop demo ''a''
         ([Chunk (hel_line @ newline # sources_line @ [newline])] @ [StreamDone])
         (idle\<lparr>buffer := []\<rparr>))) \<and>
   (snd (read_loop demo ''a''
         ([Chunk (hel_line @ newline # take 9 sources_line), Render,
           Chunk (drop 9 sources_line @ [newline])] @ [StreamDone]) (idle\<lparr>buffer := []\<rparr>)))
       \<lparr>messages := [], pending := []\<rparr> =
     (snd (read_loop demo ''a''
         ([Chunk (hel_line @ newline # sources_line @ [newline])] @ [StreamDone])
         (idle\<lparr>buffer := []\<rparr>)))\<lparr>messages := [], pending := []\<rparr> \<and>
   events (handleSendMessage demo demo_clock
       (Response 200 (Some
          ([Chunk (hel_line @ newline # take 9 sources_line), Render,
            Chunk (drop 9 sources_line @ [newline])] @ [StreamDone]))) ''hi'' idle) =
     events (handleSendMessage demo demo_clock
       (Response 200 (Some ([Chunk (hel_line @ newline # sources_line @ [newline])] @ [StreamDone])))
       ''hi'' idle) \<and>
   (handleSendMessage demo demo_clock
       (Response 200 (Some
          ([Chunk (hel_line @ newline # take 9 sources_line), Render,
            Chunk (drop 9 sources_line @ [newline])] @ [StreamDone]))) ''hi'' idle)
       \<lparr>messages := [], pending := []\<rparr> =
     (handleSendMessage demo demo_clock
       (Response 200 (Some ([Chunk (hel_line @ newline # sources_line @ [newline])] @ [StreamDone])))
       ''hi'' idle)\<lparr>messages := [], pending := []\<rparr>"
proof -
  have h1: "reading [Chunk (hel_line @ newline # take 9 sources_line), Render,
            Chunk (drop 9 sources_line @ [newline])]"
    by (simp add: reading_def)
  have h2: "reading [Chunk (hel_line @ newline # sources_line @ [newline])]"
    by (simp add: reading_def)
  have h3: "received [Chunk (hel_line @ newline # take 9 sources_line), Render,
             Chunk (drop 9 sources_line @ [newline])] =
     received [Chunk (hel_line @ newline # sources_line @ [newline])]"
    by (simp add: received_def)
  show ?thesis
    using h1 h2 h3
      chunking_invariance [OF h1 h2 h3, where P = demo and aid = "''a''" and rs = "[StreamDone]"
        and s = idle and clk = demo_clock and st = 200 and message = "''hi''"
        and m = "[]" and q = "[]"]
    by blast
qed

text \<open>
  What the screen shows in the end does depend on where React renders. The same three lines
  arrive: a \<open>content\<close> line, a \<open>sources\<close> line, a \<open>done\<close> line. With a render after
  each, the \<open>content\<close> updater runs before the list is stored and the message shows the
  empty list; with all three in one chunk it runs after, and the message shows the list.
\<close>

lemma shown_sources_depend_on_renders:
  "last (messages (render (handleSendMessage demo demo_clock
      (Response 200 (Some [Chunk (hel_line @ [newline]), Render, Chunk (sources_line @ [newline]),
         Render, Chunk (done_line @ [newline]), StreamDone])) ''hi'' idle))) =
     \<lparr>msg_id = ''msg-1701-assistant'', content = ''Hel'', role = Assistant, timestamp = 1701,
       isStreaming = Some False, sources = Some (JArr [])\<rparr> \<and>
   last (messages (render (handleSendMessage demo demo_clock
      (Response 200 (Some [Chunk (hel_line @ newline # sources_line @ newline # done_line @ [newline]),
         StreamDone])) ''hi'' idle))) =
     \<lparr>msg_id = ''msg-1701-assistant'', content = ''Hel'', role = Assistant, timestamp = 1701,
       isStreaming = Some False, sources = Some (JArr [JNum 7])\<rparr>"
  by (simp add: chat_run_defs)

text \<open>
  Claim C3. A line \<open>a @ b\<close> is split across two consecutive chunks: the first chunk ends
  with \<open>a\<close> (after \<open>p\<close>, which is empty or ends with a line break), the second starts with
  \<open>b\<close> and the line break (followed by any \<open>q\<close>). After the first chunk \<open>a\<close> is only held
  back in the buffer: the state is the one after \<open>p\<close> but for the buffer. After the second
  chunk the state is what the per-line handler, applied once to the whole line, makes of
  the state after \<open>p\<close>, followed by \<open>q\<close>. The number of events grows by exactly one when
  the line decodes, and by none when it does not.
\<close>

theorem split_line_decoded_once:
  assumes "newline \<notin> set (a @ b)" and "buffer s = []" and "p = [] \<or> last p = newline"
  shows "snd (process_chunk P aid (p @ a) s) = (snd (process_chunk P aid p s))\<lparr>buffer := a\<rparr> \<and>
         process_chunk P aid (b @ newline # q) (snd (process_chunk P aid (p @ a) s)) =
           process_chunk P aid q (snd (handle_line P aid (a @ b) (snd (process_chunk P aid p s)))) \<and>
         length (events (snd (process_chunk P aid (b @ [newline])
                   (snd (process_chunk P aid (p @ a) s))))) =
           length (events (snd (process_chunk P aid p s))) + (if decodes P (a @ b) then 1 else 0)"
proof -
  let ?sp = "chunk_step P aid p s"
  have bp: "buffer ?sp = []"
    using assms(2,3) by (simp add: buffer_chunk_step last_split_nl_terminated)
  have na: "newline \<notin> set a" and nab: "newline \<notin> set (a @ b)"
    using assms(1) by simp_all
  have "chunk_step P aid (p @ a) s = chunk_step P aid a ?sp"
    by (simp add: chunk_step_append)
  also have "\<dots> = ?sp\<lparr>buffer := a\<rparr>"
    using bp na by (simp add: chunk_step_def split_nl_no_newline)
  finally have one: "chunk_step P aid (p @ a) s = ?sp\<lparr>buffer := a\<rparr>" .
  have line: "chunk_step P aid ((a @ b) @ [newline]) ?sp = line_step P aid (a @ b) ?sp"
    using bp nab by (rule chunk_step_line)
  have two: "chunk_step P aid (b @ newline # t) (chunk_step P aid (p @ a) s) =
          chunk_step P aid t (line_step P aid (a @ b) ?sp)" for t
  proof -
    have "chunk_step P aid (b @ newline # t) (chunk_step P aid (p @ a) s) =
            chunk_step P aid t (chunk_step P aid ((a @ b) @ [newline]) ?sp)"
      by (simp add: chunk_step_append)
    then show ?thesis by (simp only: line)
  qed
  have "chunk_step P aid [] (line_step P aid (a @ b) ?sp) = line_step P aid (a @ b) ?sp"
    using bp by (simp add: chunk_step_Nil buffer_line_step)
  then have three: "chunk_step P aid (b @ [newline]) (chunk_step P aid (p @ a) s) =
          line_step P aid (a @ b) ?sp"
    using two [of "[]"] by simp
  have "length (events (chunk_step P aid (b @ [newline]) (chunk_step P aid (p @ a) s))) =
          length (events ?sp) + (if decodes P (a @ b) then 1 else 0)"
    by (simp only: three events_line_step)
  with one two [of q] show ?thesis
    by (simp only: process_chunk_step handle_line_step snd_conv simp_thms)
qed

theorem split_line_decoded_once_witness:
  "newline \<notin> set (take 9 done_line @ drop 9 done_line) \<and> buffer idle = [] \<and>
   ([] = [] \<or> last [] = newline) \<and>
   decodes demo (take 9 done_line @ drop 9 done_line) \<and>
   snd (process_chunk demo ''a'' ([] @ take 9 done_line) idle) =
     (snd (process_chunk demo ''a'' [] idle))\<lparr>buffer := take 9 done_line\<rparr> \<and>
   process_chunk demo ''a'' (drop 9 done_line @ newline # hel_line)
       (snd (process_chunk demo ''a'' ([] @ take 9 done_line) idle)) =
     process_chunk demo ''a'' hel_line
       (snd (handle_line demo ''a'' (take 9 done_line @ drop 9 done_line)
          (snd (process_chunk demo ''a'' [] idle)))) \<and>
   length (events (snd (process_chunk demo ''a'' (drop 9 done_line @ [newline])
       (snd (process_chunk demo ''a'' ([] @ take 9 done_line) idle))))) =
     length (events (snd (process_chunk demo ''a'' [] idle))) +
       (if decodes demo (take 9 done_line @ drop 9 done_line) then 1 else 0)"
proof -
  have h1: "newline \<notin> set (take 9 done_line @ drop 9 done_line)"
    by (simp add: done_line_def newline_def)
  have h2: "buffer idle = []"
    by (simp add: idle_def)
  have h3: "([]::string) = [] \<or> last [] = newline"
    by simp
  have d: "decodes demo (take 9 done_line @ drop 9 done_line)"
    by (simp add: decodes_def parsed_def startsWith_def event_types_def has_type_def demo_defs)
  show ?thesis
    using h1 h2 h3 d split_line_decoded_once [OF h1 h2 h3, of demo "''a''" hel_line]
    by blast
qed

text \<open>
  Claim C5. A line that does not start with \<open>data: \<close>, or whose text \<open>JSON.parse\<close>
  rejects, or whose record has none of the five types, leaves the state as it was (no event,
  no message touched), and the loop goes on with the lines after it. Moreover no exception
  leaves the per-line handler, the \<open>for\<close> loop or the loop turn, for any line, any list of
  lines and any chunk.
\<close>

theorem malformed_line_skipped:
  assumes "\<not> startsWith line ''data: '' \<or>
           JSON_parse P (drop 6 line) = None \<or>
           (\<exists>data. JSON_parse P (drop 6 line) = Some data \<and>
                   \<not> list_ex (has_type data) event_types)"
  shows "handle_line P aid line s = (None, s) \<and>
         for_lines P aid (line # rest) s = for_lines P aid rest s \<and>
         fst (handle_line P aid l t) = None \<and>
         fst (for_lines P aid ls t) = None \<and>
         fst (process_chunk P aid chunk t) = None"
proof -
  have "\<not> decodes P line"
    using assms by (auto simp: decodes_def parsed_def)
  then have skip: "line_step P aid line s = s"
    by (rule line_step_undecodable)
  then have "handle_line P aid line s = (None, s)"
    by (simp add: handle_line_step)
  with skip show ?thesis
    by (simp add: handle_line_no_throw for_lines_fold process_chunk_step)
qed

theorem malformed_line_skipped_witness:
  "\<not> startsWith ''event: ping'' ''data: '' \<and>
   JSON_parse demo (drop 6 ''data: {bad'') = None \<and>
   (\<exists>data. JSON_parse demo (drop 6 ping_line) = Some data \<and>
           \<not> list_ex (has_type data) event_types) \<and>
   handle_line demo ''a'' ''event: ping'' idle = (None, idle) \<and>
   handle_line demo ''a'' ''data: {bad'' idle = (None, idle) \<and>
   handle_line demo ''a'' ping_line idle = (None, idle) \<and>
   for_lines demo ''a'' [ping_line, done_line] idle = for_lines demo ''a'' [done_line] idle \<and>
   fst (handle_line demo ''a'' error_line idle) = None \<and>
   fst (for_lines demo ''a'' [error_line, ''data: null''] idle) = None \<and>
   fst (process_chunk demo ''a'' (error_line @ [newline]) idle) = None"
proof -
  have h1: "\<not> startsWith ''event: ping'' ''data: '' \<or>
     JSON_parse demo (drop 6 ''event: ping'') = None \<or>
     (\<exists>data. JSON_parse demo (drop 6 ''event: ping'') = Some data \<and>
             \<not> list_ex (has_type data) event_types)"
    by (simp add: startsWith_def)
  have h2: "\<not> startsWith ''data: {bad'' ''data: '' \<or>
     JSON_parse demo (drop 6 ''data: {bad'') = None \<or>
     (\<exists>data. JSON_parse demo (drop 6 ''data: {bad'') = Some data \<and>
             \<not> list_ex (has_type data) event_types)"
    by (simp add: demo_defs)
  have h3: "\<not> startsWith ping_line ''data: '' \<or>
     JSON_parse demo (drop 6 ping_line) = None \<or>
     (\<exists>data. JSON_parse demo (drop 6 ping_line) = Some data \<and>
             \<not> list_ex (has_type data) event_types)"
    by (simp add: demo_defs has_type_def event_types_def)
  have g1: "\<not> startsWith ''event: ping'' ''data: ''"
    by (simp add: startsWith_def)
  have g2: "JSON_parse demo (drop 6 ''data: {bad'') = None"
    by (simp add: demo_defs)
  have g3: "\<exists>data. JSON_parse demo (drop 6 ping_line) = Some data \<and>
           \<not> list_ex (has_type data) event_types"
    by (simp add: demo_defs has_type_def event_types_def)
  show ?thesis
    using h1 h2 h3 g1 g2 g3
      malformed_line_skipped [OF h1, of "''a''" idle "[]"]
      malformed_line_skipped [OF h2, of "''a''" idle "[]"]
      malformed_line_skipped [OF h3, of "''a''" idle "[done_line]" error_line idle
        "[error_line, ''data: null'']" "error_line @ [newline]"]
    by blast
qed

text \<open>
  Claim C9. When the reader reports \<open>done\<close>, text left in the buffer is dropped unparsed.
  Let the text received be \<open>body @ r\<close>, with \<open>body\<close> empty or ending with a line break and
  \<open>r\<close> free of line breaks, cut into chunks in any way, with React rendering wherever it
  does. The loop returns; its events and locals are those that \<open>body\<close> alone leads to, with
  \<open>r\<close> still in the buffer (after \<open>body\<close> alone the buffer is empty); and its whole final
  state is reached by handling the lines of \<open>body\<close> and rendering, so that \<open>r\<close> never
  reaches the per-line handler. When \<open>r\<close> arrives in chunks of its own, after those of
  \<open>body\<close>, the messages on screen in the end are those without it: the final states, once
  rendered, differ in the buffer at most. So it is for \<open>handleSendMessage\<close>.
\<close>

theorem residual_discarded:
  assumes "newline \<notin> set r" and "body = [] \<or> last body = newline" and "buffer s = []"
    and "reading ts" and "received ts = body @ r"
    and "reading tb" and "received tb = body" and "reading tr" and "received tr = r"
  shows "fst (read_loop P aid (ts @ [StreamDone]) s) = Returned \<and>
         (snd (read_loop P aid (ts @ [StreamDone]) s))\<lparr>messages := m, pending := q\<rparr> =
           (snd (read_loop P aid [Chunk body, StreamDone] s))
             \<lparr>buffer := r, messages := m, pending := q\<rparr> \<and>
         buffer (snd (read_loop P aid [Chunk body, StreamDone] s)) = [] \<and>
         (\<exists>acts. lines_of acts = butlast (split_nl body) \<and>
            snd (read_loop P aid (ts @ [StreamDone]) s) = (fold (act P aid) acts s)\<lparr>buffer := r\<rparr>) \<and>
         render (snd (read_loop P aid (tb @ tr @ [StreamDone]) s)) =
           (render (snd (read_loop P aid (tb @ [StreamDone]) s)))\<lparr>buffer := r\<rparr> \<and>
         events (handleSendMessage P clk (Response st (Some (ts @ [StreamDone]))) message s0) =
           events (handleSendMessage P clk (Response st (Some [Chunk body, StreamDone])) message s0) \<and>
         (render (handleSendMessage P clk (Response st (Some (tb @ tr @ [StreamDone]))) message s0))
             \<lparr>buffer := x\<rparr> =
           (render (handleSendMessage P clk (Response st (Some (tb @ [StreamDone]))) message s0))
             \<lparr>buffer := x\<rparr>"
proof -
  have loop: "read_loop P a (us @ [StreamDone]) t = (Returned, fold (tick_step P a) us t)"
    if "reading us" for a us t
    using that by (simp add: read_loop_reading)
  have one: "read_loop P a [Chunk body, StreamDone] t = (Returned, chunk_step P a body t)" for a t
    by (simp add: process_chunk_step)
  have dp: "decoder_part (fold (tick_step P a) ts t) =
        decoder_part ((chunk_step P a body t)\<lparr>buffer := r\<rparr>)" if "buffer t = []" for a t
  proof -
    have "decoder_part (fold (tick_step P a) ts t) =
        decoder_part (chunk_step P a (body @ r) (decoder_part t))"
      using assms(4,5) that by (simp add: decoder_part_feed)
    also have "\<dots> = decoder_part (chunk_step P a (body @ r) t)"
      by (rule chunk_step_decoder_part)
    finally show ?thesis
      using that by (simp add: chunk_step_residual [OF assms(1,2)])
  qed
  have c1: "fst (read_loop P aid (ts @ [StreamDone]) s) = Returned"
    by (simp add: loop assms(4))
  have c2: "(snd (read_loop P aid (ts @ [StreamDone]) s))\<lparr>messages := m, pending := q\<rparr> =
           (snd (read_loop P aid [Chunk body, StreamDone] s))
             \<lparr>buffer := r, messages := m, pending := q\<rparr>"
    unfolding loop [OF assms(4)] one snd_conv
    using decoder_part_eqD [OF dp [OF assms(3), of aid], where m = m and q = q]
    by simp
  have c3: "buffer (snd (read_loop P aid [Chunk body, StreamDone] s)) = []"
    unfolding one snd_conv
    using assms(2,3) by (simp add: buffer_chunk_step last_split_nl_terminated)
  have c4: "\<exists>acts. lines_of acts = butlast (split_nl body) \<and>
            snd (read_loop P aid (ts @ [StreamDone]) s) = (fold (act P aid) acts s)\<lparr>buffer := r\<rparr>"
  proof -
    have n: "newline \<notin> set (buffer s)"
      using assms(3) by simp
    obtain acts where "lines_of acts = butlast (split_nl (buffer s @ received ts))"
      and "fold (tick_step P aid) ts s =
       (fold (act P aid) acts s)\<lparr>buffer := last (split_nl (buffer s @ received ts))\<rparr>"
      using feed_actions [OF assms(4) n] by blast
    then have "lines_of acts = butlast (split_nl body) \<and>
            snd (read_loop P aid (ts @ [StreamDone]) s) = (fold (act P aid) acts s)\<lparr>buffer := r\<rparr>"
      using assms(3,5) by (simp add: loop assms(4) split_nl_residual [OF assms(1,2)])
    then show ?thesis by blast
  qed
  have res: "render (fold (tick_step P a) (tb @ tr) t) =
      (render (fold (tick_step P a) tb t))\<lparr>buffer := r\<rparr>" if "buffer t = []" for a t
  proof -
    have "buffer (fold (tick_step P a) tb t) = []"
      using that assms(2,6,7) by (simp add: buffer_feed last_split_nl_terminated)
    then show ?thesis
      using render_residual [OF assms(8), of "fold (tick_step P a) tb t" P a] assms(1,9)
      by simp
  qed
  have rb: "reading (tb @ tr)"
    using assms(6,8) by (simp add: reading_append)
  have c5: "render (snd (read_loop P aid (tb @ tr @ [StreamDone]) s)) =
           (render (snd (read_loop P aid (tb @ [StreamDone]) s)))\<lparr>buffer := r\<rparr>"
    using loop [OF rb, of aid s] loop [OF assms(6), of aid s] res [OF assms(3), of aid]
    by simp
  have c67: "events (handleSendMessage P clk (Response st (Some (ts @ [StreamDone]))) message s0) =
           events (handleSendMessage P clk (Response st (Some [Chunk body, StreamDone])) message s0) \<and>
         (render (handleSendMessage P clk (Response st (Some (tb @ tr @ [StreamDone]))) message s0))
             \<lparr>buffer := x\<rparr> =
           (render (handleSendMessage P clk (Response st (Some (tb @ [StreamDone]))) message s0))
             \<lparr>buffer := x\<rparr>"
  proof (cases "String_trim P message = [] \<or> isLoading s0 \<or> \<not> (200 \<le> st \<and> st \<le> 299)")
    case True
    show ?thesis
      using handleSendMessage_refused [OF True, of clk "ts @ [StreamDone]" "[Chunk body, StreamDone]"]
        handleSendMessage_refused [OF True, of clk "tb @ tr @ [StreamDone]" "tb @ [StreamDone]"]
      by simp
  next
    case False
    then have g: "String_trim P message \<noteq> []" "\<not> isLoading s0" "200 \<le> st" "st \<le> 299"
      by simp_all
    define a where "a = ''msg-'' @ decimal (now_assistant clk) @ ''-assistant''"
    define t0 where "t0 = s0\<lparr>isLoading := True,
          pending := pending s0 @
            [Append \<lparr>msg_id = ''msg-'' @ decimal (now_user clk) @ ''-user'', content = message,
               role = User, timestamp = date_user clk, isStreaming = None, sources = None\<rparr>,
             Append \<lparr>msg_id = ''msg-'' @ decimal (now_assistant clk) @ ''-assistant'', content = [],
               role = Assistant, timestamp = date_assistant clk, isStreaming = Some True,
               sources = None\<rparr>],
          accumulatedContent := [], cur_sources := JArr [],
          buffer := [], events := []\<rparr>"
    have h: "handleSendMessage P clk (Response st (Some (us @ [StreamDone]))) message s0 =
        (fold (tick_step P a) us t0)
          \<lparr>toasts := toasts s0 @ [Success ''Response completed!''], isLoading := False\<rparr>"
      if "reading us" for us
      unfolding a_def t0_def using g that by (rule handleSendMessage_stream)
    have b0: "buffer t0 = []"
      by (simp add: t0_def)
    have rbody: "reading [Chunk body]"
      by (simp add: reading_def)
    have "events (fold (tick_step P a) ts t0) = events ((chunk_step P a body t0)\<lparr>buffer := r\<rparr>)"
      using decoder_part_fields [OF dp [OF b0, of a]] by simp
    then have e: "events (handleSendMessage P clk (Response st (Some (ts @ [StreamDone]))) message s0) =
           events (handleSendMessage P clk (Response st (Some [Chunk body, StreamDone])) message s0)"
      using h [OF assms(4)] h [OF rbody] by simp
    have "(render (handleSendMessage P clk (Response st (Some (tb @ tr @ [StreamDone]))) message s0))
             \<lparr>buffer := x\<rparr> =
           (render (handleSendMessage P clk (Response st (Some (tb @ [StreamDone]))) message s0))
             \<lparr>buffer := x\<rparr>"
      using h [OF rb] h [OF assms(6)] res [OF b0, of a]
      by (simp add: render_toasts_isLoading)
    with e show ?thesis by simp
  qed
  from c1 c2 c3 c4 c5 c67 show ?thesis by blast
qed

theorem residual_discarded_witness:
  "newline \<notin> set done_line \<and>
   (hel_line @ [newline] = [] \<or> last (hel_line @ [newline]) = newline) \<and>
   buffer idle = [] \<and>
   reading [Chunk hel_line, Render, Chunk (newline # take 9 done_line), Chunk (drop 9 done_line)] \<and>
   received [Chunk hel_line, Render, Chunk (newline # take 9 done_line), Chunk (drop 9 done_line)] =
     (hel_line @ [newline]) @ done_line \<and>
   reading [Chunk hel_line, Chunk [newline]] \<and>
   received [Chunk hel_line, Chunk [newline]] = hel_line @ [newline] \<and>
   reading [Chunk (take 9 done_line), Render, Chunk (drop 9 done_line)] \<and>
   received [Chunk (take 9 done_line), Render, Chunk (drop 9 done_line)] = done_line \<and>
   fst (read_loop demo ''a''
     ([Chunk hel_line, Render, Chunk (newline # take 9 done_line), Chunk (drop 9 done_line)] @
      [StreamDone]) idle) = Returned \<and>
   (snd (read_loop demo ''a''
     ([Chunk hel_line, Render, Chunk (newline # take 9 done_line), Chunk (drop 9 done_line)] @
      [StreamDone]) idle))\<lparr>messages := [], pending := []\<rparr> =
     (snd (read_loop demo ''a'' [Chunk (hel_line @ [newline]), StreamDone] idle))
       \<lparr>buffer := done_line, messages := [], pending := []\<rparr> \<and>
   buffer (snd (read_loop demo ''a'' [Chunk (hel_line @ [newline]), StreamDone] idle)) = [] \<and>
   (\<exists>acts. lines_of acts = butlast (split_nl (hel_line @ [newline])) \<and>
      snd (read_loop demo ''a''
        ([Chunk hel_line, Render, Chunk (newline # take 9 done_line), Chunk (drop 9 done_line)] @
         [StreamDone]) idle) = (fold (act demo ''a'') acts idle)\<lparr>buffer := done_line\<rparr>) \<and>
   render (snd (read_loop demo ''a''
      ([Chunk hel_line, Chunk [newline]] @
       [Chunk (take 9 done_line), Render, Chunk (drop 9 done_line)] @ [StreamDone]) idle)) =
     (render (snd (read_loop demo ''a'' ([Chunk hel_line, Chunk [newline]] @ [StreamDone]) idle)))
       \<lparr>buffer := done_line\<rparr> \<and>
   events (handleSendMessage demo demo_clock
      (Response 200 (Some
         ([Chunk hel_line, Render, Chunk (newline # take 9 done_line), Chunk (drop 9 done_line)] @
          [StreamDone]))) ''hi'' idle) =
     events (handleSendMessage demo demo_clock
      (Response 200 (Some [Chunk (hel_line @ [newline]), StreamDone])) ''hi'' idle) \<and>
   (render (handleSendMessage demo demo_clock
      (Response 200 (Some
         ([Chunk hel_line, Chunk [newline]] @
          [Chunk (take 9 done_line), Render, Chunk (drop 9 done_line)] @ [StreamDone])))
      ''hi'' idle))\<lparr>buffer := []\<rparr> =
     (render (handleSendMessage demo demo_clock
        (Response 200 (Some ([Chunk hel_line, Chunk [newline]] @ [StreamDone]))) ''hi'' idle))
       \<lparr>buffer := []\<rparr>"
proof -
  have h1: "newline \<notin> set done_line"
    by (simp add: done_line_def newline_def)
  have h2: "hel_line @ [newline] = [] \<or> last (hel_line @ [newline]) = newline"
    by simp
  have h3: "buffer idle = []"
    by (simp add: idle_def)
  have h4: "reading [Chunk hel_line, Render, Chunk (newline # take 9 done_line),
      Chunk (drop 9 done_line)]"
    by (simp add: reading_def)
  have h5: "received [Chunk hel_line, Render, Chunk (newline # take 9 done_line),
      Chunk (drop 9 done_line)] = (hel_line @ [newline]) @ done_line"
    by (simp add: received_def)
  have h6: "reading [Chunk hel_line, Chunk [newline]]"
    by (simp add: reading_def)
  have h7: "received [Chunk hel_line, Chunk [newline]] = hel_line @ [newline]"
    by (simp add: received_def)
  have h8: "reading [Chunk (take 9 done_line), Render, Chunk (drop 9 done_line)]"
    by (simp add: reading_def)
  have h9: "received [Chunk (take 9 done_line), Render, Chunk (drop 9 done_line)] = done_line"
    by (simp add: received_def)
  show ?thesis
    using h1 h2 h3 h4 h5 h6 h7 h8 h9
      residual_discarded [OF h1 h2 h3 h4 h5 h6 h7 h8 h9, where P = demo and aid = "''a''"
        and clk = demo_clock and st = 200 and message = "''hi''" and ?s0.0 = idle and x = "[]"
        and m = "[]" and q = "[]"]
    by blast
qed

text \<open>
  Claim C4. The text received consists of lines, each followed by a line break (and
  perhaps of a rest \<open>r\<close> without one); it is cut into chunks in any way, and React renders
  wherever it does. Among the lines, those that decode are a \<open>sources\<close> line, then N
  \<open>content\<close> lines, then a \<open>done\<close> line; lines that do not decode (empty lines, comments,
  records of other types) may stand anywhere between them. For a call that passes the
  guard of line 64 and gets a response with a status from 200 to 299, the assistant message
  (the last message) is in the end, once rendered, the one with \<open>isStreaming\<close> false and
  with content the concatenation, in order, of the N payloads, each as \<open>+=\<close> takes it: a
  string as it is, another value in its string form, and nothing for a payload without a
  string form, whose line is skipped. It carries the list of the \<open>sources\<close> line when one
  payload at least was taken. The events are those N + 2, in order.
\<close>

theorem sources_content_done:
  assumes "String_trim P message \<noteq> []" and "\<not> isLoading s" and "pending s = []"
    and "200 \<le> st" and "st \<le> 299"
    and "reading ts" and "received ts = unlines lines @ r"
    and "\<forall>l \<in> set lines. newline \<notin> set l" and "newline \<notin> set r"
    and "filter (decodes P) lines = l0 # ls @ [ld]"
    and "parsed P l0 = Some d0" and "has_type d0 ''sources''"
    and "list_all2 (\<lambda>l d. parsed P l = Some d \<and> has_type d ''content'') ls ds"
    and "parsed P ld = Some dd" and "has_type dd ''done''"
  shows "last (messages (render (handleSendMessage P clk
            (Response st (Some (ts @ [StreamDone]))) message s))) =
           \<lparr>msg_id = ''msg-'' @ decimal (now_assistant clk) @ ''-assistant'',
             content = concat (map (payload_text P) ds),
             role = Assistant, timestamp = date_assistant clk, isStreaming = Some False,
             sources = (if list_ex (payload_shown P) ds
                        then Some (or_empty_array (property d0 ''sources'')) else None)\<rparr> \<and>
         events (handleSendMessage P clk
            (Response st (Some (ts @ [StreamDone]))) message s) =
           EvSources (or_empty_array (property d0 ''sources'')) #
             map (\<lambda>d. EvContent (property d ''content'')) ds @ [EvDone]"
proof -
  define aid where "aid = ''msg-'' @ decimal (now_assistant clk) @ ''-assistant''"
  define u where "u = \<lparr>msg_id = ''msg-'' @ decimal (now_user clk) @ ''-user'', content = message,
               role = User, timestamp = date_user clk, isStreaming = None, sources = None\<rparr>"
  define t0 where "t0 = s\<lparr>isLoading := True,
          pending := pending s @
            [Append u,
             Append \<lparr>msg_id = aid, content = [], role = Assistant, timestamp = date_assistant clk,
               isStreaming = Some True, sources = None\<rparr>],
          accumulatedContent := [], cur_sources := JArr [], buffer := [], events := []\<rparr>"
  define S where "S = or_empty_array (property d0 ''sources'')"
  define E where "E = map (\<lambda>d. EvContent (property d ''content'')) ds"
  define any where "any = list_ex (payload_shown P) ds"
  let ?content = "\<lambda>l d. parsed P l = Some d \<and> has_type d ''content''"
  have final: "handleSendMessage P clk (Response st (Some (ts @ [StreamDone]))) message s =
      (fold (tick_step P aid) ts t0)\<lparr>toasts := toasts s @ [Success ''Response completed!''],
        isLoading := False\<rparr>"
    unfolding aid_def t0_def u_def
    using assms(1,2,4,5,6) by (rule handleSendMessage_stream)
  have n0: "newline \<notin> set (buffer t0)"
    by (simp add: t0_def)
  have sp: "split_nl (unlines lines @ r) = lines @ [r]"
    using assms(8,9) by (simp add: split_nl_unlines split_nl_no_newline)
  obtain acts where la: "lines_of acts = lines"
    and fd: "fold (tick_step P aid) ts t0 = (fold (act P aid) acts t0)\<lparr>buffer := r\<rparr>"
    using feed_actions [OF assms(6) n0, of P aid] by (auto simp: t0_def assms(7) sp)
  obtain accA rest where cutA: "acts = accA @ Handle l0 # rest"
    and fA: "filter (decodes P) (lines_of accA) = []"
    and fr: "filter (decodes P) (lines_of rest) = ls @ [ld]"
    using actions_split_Cons [of "decodes P" acts l0 "ls @ [ld]"] assms(10) la by auto
  obtain accB rest' where cutB: "rest = accB @ rest'"
    and fB: "filter (decodes P) (lines_of accB) = ls"
    and fr': "filter (decodes P) (lines_of rest') = [ld]"
    using actions_split_append [OF fr] by blast
  obtain accB' accC where cutC: "rest' = accB' @ Handle ld # accC"
    and fB': "filter (decodes P) (lines_of accB') = []"
    and fC: "filter (decodes P) (lines_of accC) = []"
    using actions_split_Cons [OF fr'] by blast
  define tA where "tA = fold (act P aid) accA t0"
  define t1 where "t1 = line_step P aid l0 tA"
  define tB where "tB = fold (act P aid) (accB @ accB') t1"
  define t2 where "t2 = line_step P aid ld tB"
  define tC where "tC = fold (act P aid) accC t2"
  have run: "fold (act P aid) acts t0 = tC"
    by (simp add: cutA cutB cutC tA_def t1_def tB_def t2_def tC_def)
  have sh0: "showing aid Assistant (date_assistant clk) (Some True) False t0"
    unfolding t0_def using assms(3) by (rule showing_start)
  have q0: "\<not> list_ex shows_sources (pending t0)"
    using assms(3) by (simp add: t0_def)
  have lA: "list_all2 ?content (filter (decodes P) (lines_of accA)) []"
    by (simp add: fA)
  have A: "showing aid Assistant (date_assistant clk) (Some True) False tA"
    "accumulatedContent tA = []" "events tA = []" "\<not> list_ex shows_sources (pending tA)"
    using content_run [OF lA sh0] q0 by (simp_all add: tA_def t0_def)
  have t1: "t1 = tA\<lparr>cur_sources := S, events := events tA @ [EvSources S]\<rparr>"
    unfolding t1_def S_def using assms(11,12) by (rule line_step_sources)
  have sh1: "showing aid Assistant (date_assistant clk) (Some True) False t1"
    unfolding t1 using A(1,4) by (rule showing_sources)
  have lB: "list_all2 ?content (filter (decodes P) (lines_of (accB @ accB'))) ds"
    using assms(13) by (simp add: fB fB')
  have B: "showing aid Assistant (date_assistant clk) (Some True) any tB"
    "accumulatedContent tB = concat (map (payload_text P) ds)" "cur_sources tB = S"
    "events tB = EvSources S # E"
    using content_run [OF lB sh1] by (simp_all add: tB_def t1 A any_def E_def)
  have t2: "t2 = tB\<lparr>pending := pending tB @ [ShowDone aid], events := events tB @ [EvDone]\<rparr>"
    unfolding t2_def using assms(14,15) by (rule line_step_done)
  have sh2: "showing aid Assistant (date_assistant clk) (Some False) any t2"
    unfolding t2 using B(1) by (rule showing_done)
  have lC: "list_all2 ?content (filter (decodes P) (lines_of accC)) []"
    by (simp add: fC)
  have C: "showing aid Assistant (date_assistant clk) (Some False) any tC"
    "accumulatedContent tC = concat (map (payload_text P) ds)" "cur_sources tC = S"
    "events tC = EvSources S # E @ [EvDone]"
    using content_run [OF lC sh2] by (simp_all add: tC_def t2 B)
  have "messages (render (handleSendMessage P clk (Response st (Some (ts @ [StreamDone]))) message s)) =
      view tC tC"
    by (simp add: final fd run render_toasts_isLoading render_buffer messages_render)
  moreover have "events (handleSendMessage P clk (Response st (Some (ts @ [StreamDone]))) message s) =
      events tC"
    by (simp add: final fd run)
  ultimately show ?thesis
    using C by (simp add: showing_def aid_def S_def E_def any_def)
qed

theorem sources_content_done_witness:
  "String_trim demo ''hi'' \<noteq> [] \<and> \<not> isLoading idle \<and> pending idle = [] \<and>
   (200::nat) \<le> 200 \<and> (200::nat) \<le> 299 \<and>
   reading [Render, Chunk (sources_line @ newline # newline # take 9 hel_line), Render,
            Chunk (drop 9 hel_line @ newline # ping_line @ newline # odd_line @ newline #
                   lo_line @ newline # newline # done_line),
            Chunk [newline, newline]] \<and>
   received [Render, Chunk (sources_line @ newline # newline # take 9 hel_line), Render,
            Chunk (drop 9 hel_line @ newline # ping_line @ newline # odd_line @ newline #
                   lo_line @ newline # newline # done_line),
            Chunk [newline, newline]] =
     unlines [sources_line, [], hel_line, ping_line, odd_line, lo_line, [], done_line, []] @ [] \<and>
   list_all (\<lambda>l. newline \<notin> set l)
     [sources_line, [], hel_line, ping_line, odd_line, lo_line, [], done_line, []] \<and>
   newline \<notin> set [] \<and>
   filter (decodes demo)
       [sources_line, [], hel_line, ping_line, odd_line, lo_line, [], done_line, []] =
     sources_line # [hel_line, odd_line, lo_line] @ [done_line] \<and>
   parsed demo sources_line = Some sources_record \<and> has_type sources_record ''sources'' \<and>
   list_all2 (\<lambda>l d. parsed demo l = Some d \<and> has_type d ''content'')
     [hel_line, odd_line, lo_line] [hel_record, odd_record, lo_record] \<and>
   parsed demo done_line = Some done_record \<and> has_type done_record ''done'' \<and>
   last (messages (render (handleSendMessage demo demo_clock
      (Response 200 (Some
         ([Render, Chunk (sources_line @ newline # newline # take 9 hel_line), Render,
           Chunk (drop 9 hel_line @ newline # ping_line @ newline # odd_line @ newline #
                  lo_line @ newline # newline # done_line),
           Chunk [newline, newline]] @ [StreamDone])))
      ''hi'' idle))) =
     \<lparr>msg_id = ''msg-1701-assistant'', content = ''Hello'', role = Assistant, timestamp = 1701,
       isStreaming = Some False, sources = Some (JArr [JNum 7])\<rparr> \<and>
   events (handleSendMessage demo demo_clock
      (Response 200 (Some
         ([Render, Chunk (sources_line @ newline # newline # take 9 hel_line), Render,
           Chunk (drop 9 hel_line @ newline # ping_line @ newline # odd_line @ newline #
                  lo_line @ newline # newline # done_line),
           Chunk [newline, newline]] @ [StreamDone])))
      ''hi'' idle) =
     [EvSources (JArr [JNum 7]), EvContent (Some (JStr ''Hel'')),
      EvContent (Some (JObj [(''toString'', JNum 1)])), EvContent (Some (JStr ''lo'')), EvDone]"
proof -
  have h1: "String_trim demo ''hi'' \<noteq> []"
    by (simp add: demo_def)
  have h2: "\<not> isLoading idle" and h3: "pending idle = []"
    by (simp_all add: idle_def)
  have h4: "(200::nat) \<le> 200" and h5: "(200::nat) \<le> 299"
    by simp_all
  have h6: "reading [Render, Chunk (sources_line @ newline # newline # take 9 hel_line), Render,
            Chunk (drop 9 hel_line @ newline # ping_line @ newline # odd_line @ newline #
                   lo_line @ newline # newline # done_line),
            Chunk [newline, newline]]"
    by (simp add: reading_def)
  have h7: "received [Render, Chunk (sources_line @ newline # newline # take 9 hel_line), Render,
            Chunk (drop 9 hel_line @ newline # ping_line @ newline # odd_line @ newline #
                   lo_line @ newline # newline # done_line),
            Chunk [newline, newline]] =
     unlines [sources_line, [], hel_line, ping_line, odd_line, lo_line, [], done_line, []] @ []"
    by (simp add: received_def unlines_def)
  have h8: "\<forall>l \<in> set [sources_line, [], hel_line, ping_line, odd_line, lo_line, [], done_line, []].
      newline \<notin> set l"
    by (simp add: demo_defs)
  have h9: "newline \<notin> set []"
    by simp
  have h10: "filter (decodes demo)
       [sources_line, [], hel_line, ping_line, odd_line, lo_line, [], done_line, []] =
     sources_line # [hel_line, odd_line, lo_line] @ [done_line]"
    by (simp add: decodes_def parsed_def startsWith_def event_types_def has_type_def demo_defs)
  have h11: "parsed demo sources_line = Some sources_record"
    by (simp add: parsed_def startsWith_def demo_defs)
  have h12: "has_type sources_record ''sources''"
    by (simp add: has_type_def sources_record_def)
  have h13: "list_all2 (\<lambda>l d. parsed demo l = Some d \<and> has_type d ''content'')
     [hel_line, odd_line, lo_line] [hel_record, odd_record, lo_record]"
    by (simp add: parsed_def startsWith_def has_type_def demo_defs)
  have h14: "parsed demo done_line = Some done_record"
    by (simp add: parsed_def startsWith_def demo_defs)
  have h15: "has_type done_record ''done''"
    by (simp add: has_type_def done_record_def)
  have r1: "\<lparr>msg_id = ''msg-'' @ decimal (now_assistant demo_clock) @ ''-assistant'',
             content = concat (map (payload_text demo) [hel_record, odd_record, lo_record]),
             role = Assistant, timestamp = date_assistant demo_clock, isStreaming = Some False,
             sources = (if list_ex (payload_shown demo) [hel_record, odd_record, lo_record]
                        then Some (or_empty_array (property sources_record ''sources''))
                        else None)\<rparr> =
     \<lparr>msg_id = ''msg-1701-assistant'', content = ''Hello'', role = Assistant, timestamp = 1701,
       isStreaming = Some False, sources = Some (JArr [JNum 7])\<rparr>"
    by (simp add: decimal_1701 payload_text_def payload_shown_def concat_operand_def
        or_empty_array_def demo_defs)
  have r2: "EvSources (or_empty_array (property sources_record ''sources'')) #
             map (\<lambda>d. EvContent (property d ''content'')) [hel_record, odd_record, lo_record] @
             [EvDone] =
     [EvSources (JArr [JNum 7]), EvContent (Some (JStr ''Hel'')),
      EvContent (Some (JObj [(''toString'', JNum 1)])), EvContent (Some (JStr ''lo'')), EvDone]"
    by (simp add: or_empty_array_def demo_defs)
  show ?thesis
    using h1 h2 h3 h4 h5 h6 h7 h8 h9 h10 h11 h12 h13 h14 h15
      sources_content_done [OF h1 h2 h3 h4 h5 h6 h7 h8 h9 h10 h11 h12 h13 h14 h15,
        where clk = demo_clock]
    unfolding r1 r2 list_all_iff
    by blast
qed

text \<open>
  Claim C10, amended. A \<open>sources\<close> line calls no \<open>setMessages\<close>: it assigns the local
  \<open>sources\<close> (and adds to the history of events) and leaves the messages and the queue of
  updaters as they were. What the next render shows is unchanged too, when no updater that
  writes \<open>sources\<close> is waiting in the queue. But the updater of a \<open>content\<close> line reads
  the local when React runs it: whether the \<open>content\<close> line is handled before the
  \<open>sources\<close> line or after it, a render that comes after both shows the list of the
  \<open>sources\<close> line. Only \<open>content\<close> and \<open>sources_update\<close> lines queue an updater that
  writes \<open>sources\<close>, and a render without such an updater in the queue leaves the
  \<open>sources\<close> of every message on screen as they were.
\<close>

theorem sources_shown_at_render:
  assumes "parsed P line = Some data" and "has_type data ''sources''"
  shows "handle_line P aid line s =
           (None, s\<lparr>cur_sources := or_empty_array (property data ''sources''),
                    events := events s @ [EvSources (or_empty_array (property data ''sources''))]\<rparr>) \<and>
         messages (snd (handle_line P aid line s)) = messages s \<and>
         pending (snd (handle_line P aid line s)) = pending s \<and>
         (\<not> list_ex shows_sources (pending s) \<longrightarrow>
            messages (render (snd (handle_line P aid line s))) = messages (render s)) \<and>
         (pending s = [] \<and> parsed P l' = Some d' \<and> has_type d' ''content'' \<and>
          concat_operand P (property d' ''content'') = Some str \<longrightarrow>
            messages (render (snd (handle_line P aid line (snd (handle_line P aid l' s))))) =
              update_assistant aid
                (\<lambda>msg. msg\<lparr>content := accumulatedContent s @ str, isStreaming := Some True,
                   sources := Some (or_empty_array (property data ''sources''))\<rparr>) (messages s) \<and>
            messages (render (snd (handle_line P aid l' (snd (handle_line P aid line s))))) =
              update_assistant aid
                (\<lambda>msg. msg\<lparr>content := accumulatedContent s @ str, isStreaming := Some True,
                   sources := Some (or_empty_array (property data ''sources''))\<rparr>) (messages s)) \<and>
         (filter shows_sources (pending (snd (handle_line P aid l'' t))) \<noteq>
            filter shows_sources (pending t) \<longrightarrow>
            (\<exists>d. parsed P l'' = Some d \<and> (has_type d ''content'' \<or> has_type d ''sources_update''))) \<and>
         (\<not> list_ex shows_sources (pending v) \<longrightarrow>
            map sources (take (length (messages v)) (messages (render v))) =
              map sources (messages v))"
proof -
  define S where "S = or_empty_array (property data ''sources'')"
  have one: "line_step P aid line u = u\<lparr>cur_sources := S, events := events u @ [EvSources S]\<rparr>" for u
    unfolding S_def using assms by (rule line_step_sources)
  have two: "messages (render (line_step P aid line s)) = messages (render s)"
    if "\<not> list_ex shows_sources (pending s)"
  proof -
    have "view (line_step P aid line s) (line_step P aid line s) = view (line_step P aid line s) s"
      by (simp add: one view_def)
    also have "\<dots> = view s s"
      using that by (rule view_no_shows)
    finally show ?thesis by (simp add: messages_render)
  qed
  have three: "messages (render (line_step P aid line (line_step P aid l' s))) =
              update_assistant aid
                (\<lambda>msg. msg\<lparr>content := accumulatedContent s @ str, isStreaming := Some True,
                   sources := Some S\<rparr>) (messages s) \<and>
            messages (render (line_step P aid l' (line_step P aid line s))) =
              update_assistant aid
                (\<lambda>msg. msg\<lparr>content := accumulatedContent s @ str, isStreaming := Some True,
                   sources := Some S\<rparr>) (messages s)"
    if "pending s = []" and "parsed P l' = Some d'" and "has_type d' ''content''"
      and "concat_operand P (property d' ''content'') = Some str"
    using that(1) by (simp add: line_step_content [OF that(2,3,4)] one render_def)
  have four: "\<exists>d. parsed P l'' = Some d \<and> (has_type d ''content'' \<or> has_type d ''sources_update'')"
    if "filter shows_sources (pending (line_step P aid l'' t)) \<noteq> filter shows_sources (pending t)"
    using that pending_shows_sources_only_by [of P l'' aid t] by blast
  show ?thesis
    using two three four sources_kept_by_render [of v]
    by (simp add: handle_line_step one S_def)
qed

theorem sources_shown_at_render_witness:
  "parsed demo sources_line = Some sources_record \<and> has_type sources_record ''sources'' \<and>
   \<not> list_ex shows_sources (pending streaming) \<and>
   pending streaming = [] \<and> parsed demo hel_line = Some hel_record \<and>
   has_type hel_record ''content'' \<and>
   concat_operand demo (property hel_record ''content'') = Some ''Hel'' \<and>
   filter shows_sources (pending (snd (handle_line demo ''a'' hel_line streaming))) \<noteq>
     filter shows_sources (pending streaming) \<and>
   \<not> list_ex shows_sources (pending finishing) \<and>
   handle_line demo ''a'' sources_line streaming =
     (None, streaming\<lparr>cur_sources := or_empty_array (property sources_record ''sources''),
        events := events streaming @
          [EvSources (or_empty_array (property sources_record ''sources''))]\<rparr>) \<and>
   messages (snd (handle_line demo ''a'' sources_line streaming)) = messages streaming \<and>
   pending (snd (handle_line demo ''a'' sources_line streaming)) = pending streaming \<and>
   messages (render (snd (handle_line demo ''a'' sources_line streaming))) =
     messages (render streaming) \<and>
   messages (render (snd (handle_line demo ''a'' sources_line
       (snd (handle_line demo ''a'' hel_line streaming))))) =
     update_assistant ''a''
       (\<lambda>msg. msg\<lparr>content := accumulatedContent streaming @ ''Hel'', isStreaming := Some True,
          sources := Some (or_empty_array (property sources_record ''sources''))\<rparr>)
       (messages streaming) \<and>
   messages (render (snd (handle_line demo ''a'' hel_line
       (snd (handle_line demo ''a'' sources_line streaming))))) =
     update_assistant ''a''
       (\<lambda>msg. msg\<lparr>content := accumulatedContent streaming @ ''Hel'', isStreaming := Some True,
          sources := Some (or_empty_array (property sources_record ''sources''))\<rparr>)
       (messages streaming) \<and>
   (\<exists>d. parsed demo hel_line = Some d \<and> (has_type d ''content'' \<or> has_type d ''sources_update'')) \<and>
   map sources (take (length (messages finishing)) (messages (render finishing))) =
     map sources (messages finishing)"
proof -
  have h1: "parsed demo sources_line = Some sources_record"
    by (simp add: parsed_def startsWith_def demo_defs)
  have h2: "has_type sources_record ''sources''"
    by (simp add: has_type_def sources_record_def)
  have a1: "\<not> list_ex shows_sources (pending streaming)" and a2: "pending streaming = []"
    by (simp_all add: streaming_def idle_def)
  have a3: "parsed demo hel_line = Some hel_record" and a4: "has_type hel_record ''content''"
    by (simp_all add: parsed_def startsWith_def has_type_def demo_defs)
  have a5: "concat_operand demo (property hel_record ''content'') = Some ''Hel''"
    by (simp add: concat_operand_def hel_record_def)
  have a6: "filter shows_sources (pending (snd (handle_line demo ''a'' hel_line streaming))) \<noteq>
     filter shows_sources (pending streaming)"
    by (simp add: handle_line_def try_block_def startsWith_def concat_operand_def
        streaming_def demo_defs Let_def)
  have a7: "\<not> list_ex shows_sources (pending finishing)"
    by (simp add: finishing_def)
  show ?thesis
    using h1 h2 a1 a2 a3 a4 a5 a6 a7
      sources_shown_at_render [OF h1 h2, where aid = "''a''" and s = streaming and l' = hel_line
        and d' = hel_record and str = "''Hel''" and l'' = hel_line and t = streaming
        and v = finishing]
    by blast
qed

text \<open>
  Claim C10 as stated does not hold. In this run the \<open>sources\<close> line is the last line of
  the stream: no \<open>content\<close> and no \<open>sources_update\<close> line is handled after it. Yet
  its list is on the assistant message in the end, through the updater of the \<open>content\<close>
  line before it, which React runs after the list was stored. Line by line: handling the
  \<open>sources\<close> line changes what the next render shows.
\<close>

theorem sources_shown_without_later_event:
  "events (handleSendMessage demo demo_clock
      (Response 200 (Some [Chunk (hel_line @ newline # sources_line @ [newline]), StreamDone]))
      ''hi'' idle) =
     [EvContent (Some (JStr ''Hel'')), EvSources (JArr [JNum 7])] \<and>
   last (messages (render (handleSendMessage demo demo_clock
      (Response 200 (Some [Chunk (hel_line @ newline # sources_line @ [newline]), StreamDone]))
      ''hi'' idle))) =
     \<lparr>msg_id = ''msg-1701-assistant'', content = ''Hel'', role = Assistant, timestamp = 1701,
       isStreaming = Some True, sources = Some (JArr [JNum 7])\<rparr> \<and>
   messages (render (snd (handle_line demo ''a'' hel_line streaming))) =
     [\<lparr>msg_id = ''a'', content = ''Hel'', role = Assistant, timestamp = 0,
        isStreaming = Some True, sources = Some (JArr [])\<rparr>] \<and>
   messages (render (snd (handle_line demo ''a'' sources_line
       (snd (handle_line demo ''a'' hel_line streaming))))) =
     [\<lparr>msg_id = ''a'', content = ''Hel'', role = Assistant, timestamp = 0,
        isStreaming = Some True, sources = Some (JArr [JNum 7])\<rparr>]"
  by (simp add: chat_run_defs streaming_def)

text \<open>
  Claim C1, which the code does not meet. The \<open>throw\<close> of line 170 stands inside the
  \<open>try\<close> of line 133, so the \<open>catch\<close> of line 172 takes it as it takes a parse failure,
  and the stream goes on. In the first run an \<open>error\<close> line is followed by a \<open>content\<close>
  line: the content is shown, the message keeps \<open>isStreaming\<close> true, no fallback text
  appears and the success toast is raised. In the second run a read is rejected: that
  exception reaches the outer \<open>catch\<close>, which shows the fallback text.
\<close>

theorem error_event_not_terminal:
  "render (handleSendMessage demo demo_clock
     (Response 200 (Some [Chunk (error_line @ [newline] @ lo_line @ [newline]), StreamDone]))
     ''hi'' idle) =
   \<lparr>messages =
      [\<lparr>msg_id = ''msg-1700-user'', content = ''hi'', role = User, timestamp = 1700,
         isStreaming = None, sources = None\<rparr>,
       \<lparr>msg_id = ''msg-1701-assistant'', content = ''lo'', role = Assistant, timestamp = 1701,
         isStreaming = Some True, sources = Some (JArr [])\<rparr>],
    pending = [],
    isLoading = False, toasts = [Success ''Response completed!''],
    accumulatedContent = ''lo'', cur_sources = JArr [], buffer = [],
    events = [EvError (Some (JStr ''boom'')), EvContent (Some (JStr ''lo''))]\<rparr> \<and>
   render (handleSendMessage demo demo_clock
     (Response 200 (Some [Chunk (lo_line @ [newline]), ReadRejected]))
     ''hi'' idle) =
   \<lparr>messages =
      [\<lparr>msg_id = ''msg-1700-user'', content = ''hi'', role = User, timestamp = 1700,
         isStreaming = None, sources = None\<rparr>,
       \<lparr>msg_id = ''msg-1701-assistant'',
         content = ''Sorry, I encountered an error. Please try again.'', role = Assistant,
         timestamp = 1701, isStreaming = Some False, sources = Some (JArr [])\<rparr>],
    pending = [],
    isLoading = False, toasts = [Failure ''Failed to get response. Please try again.''],
    accumulatedContent = ''lo'', cur_sources = JArr [], buffer = [],
    events = [EvContent (Some (JStr ''lo''))]\<rparr>"
  by (simp add: chat_run_defs)

section \<open>Properties of the admin console\<close>

subsection \<open>File selection\<close>

lemma fold_batch_select_file:
  "\<exists>new al. fold batch_select_file fs (acc, sh) = (acc @ new, sh @ al) \<and>
      map item_file new = filter (\<lambda>f. file_size f \<le> MAX_FILE_SIZE) fs"
proof (induction fs arbitrary: acc sh)
  case Nil
  show ?case by simp
next
  case (Cons f fs)
  show ?case
  proof (cases "file_size f > MAX_FILE_SIZE")
    case True
    then obtain msg where step: "batch_select_file f (acc, sh) = (acc, sh @ [msg])"
      by (simp add: batch_select_file_def)
    obtain new al where
      "fold batch_select_file fs (acc, sh @ [msg]) = (acc @ new, (sh @ [msg]) @ al)"
      and "map item_file new = filter (\<lambda>f. file_size f \<le> MAX_FILE_SIZE) fs"
      using Cons.IH by blast
    with True step show ?thesis
      by simp
  next
    case False
    then obtain entry where step: "batch_select_file f (acc, sh) = (acc @ [entry], sh)"
      and entry: "item_file entry = f"
      by (simp add: batch_select_file_def)
    obtain new al where
      "fold batch_select_file fs (acc @ [entry], sh) = ((acc @ [entry]) @ new, sh @ al)"
      and "map item_file new = filter (\<lambda>f. file_size f \<le> MAX_FILE_SIZE) fs"
      using Cons.IH by blast
    with False step entry have
      "fold batch_select_file (f # fs) (acc, sh) = (acc @ (entry # new), sh @ al) \<and>
       map item_file (entry # new) = filter (\<lambda>f. file_size f \<le> MAX_FILE_SIZE) (f # fs)"
      by simp
    then show ?thesis by blast
  qed
qed

text \<open>
  Claim C6. \<open>handleFileSelect\<close> on a first file of more than 1610612736 bytes leaves
  \<open>selectedFile\<close> and \<open>metadata\<close> as they were, raises an alert and issues no request; on
  a first file of at most 1610612736 bytes it selects the file (and issues no request).
  \<open>handleBatchFileSelect\<close> appends to \<open>batchFiles\<close> exactly one entry for each file of at
  most 1610612736 bytes, in order, none for a larger file, and issues no request.
\<close>

theorem oversized_file_rejected:
  "(file_size f > 1610612736 \<longrightarrow>
      selectedFile (snd (handleFileSelect (tgt\<lparr>files := Some (f # rest)\<rparr>) a)) = selectedFile a \<and>
      metadata (snd (handleFileSelect (tgt\<lparr>files := Some (f # rest)\<rparr>) a)) = metadata a \<and>
      requests (snd (handleFileSelect (tgt\<lparr>files := Some (f # rest)\<rparr>) a)) = requests a \<and>
      alerts (snd (handleFileSelect (tgt\<lparr>files := Some (f # rest)\<rparr>) a)) \<noteq> alerts a) \<and>
   (file_size f \<le> 1610612736 \<longrightarrow>
      selectedFile (snd (handleFileSelect (tgt\<lparr>files := Some (f # rest)\<rparr>) a)) = Some f \<and>
      requests (snd (handleFileSelect (tgt\<lparr>files := Some (f # rest)\<rparr>) a)) = requests a) \<and>
   (\<exists>new. batchFiles (snd (handleBatchFileSelect (tgt\<lparr>files := Some fs\<rparr>) a)) =
            batchFiles a @ new \<and>
          map item_file new = filter (\<lambda>f. file_size f \<le> 1610612736) fs) \<and>
   requests (snd (handleBatchFileSelect (tgt\<lparr>files := Some fs\<rparr>) a)) = requests a"
proof -
  obtain new al where f: "fold batch_select_file fs ([], alerts a) = ([] @ new, alerts a @ al)"
    and n: "map item_file new = filter (\<lambda>f. file_size f \<le> MAX_FILE_SIZE) fs"
    using fold_batch_select_file [of fs "[]" "alerts a"] by blast
  have batch: "\<exists>new. batchFiles (snd (handleBatchFileSelect (tgt\<lparr>files := Some fs\<rparr>) a)) =
            batchFiles a @ new \<and>
          map item_file new = filter (\<lambda>f. file_size f \<le> 1610612736) fs"
  proof (cases fs)
    case Nil
    then show ?thesis by (simp add: handleBatchFileSelect_def)
  next
    case (Cons g gs)
    then have "batchFiles (snd (handleBatchFileSelect (tgt\<lparr>files := Some fs\<rparr>) a)) =
            batchFiles a @ new"
      using f by (simp add: handleBatchFileSelect_def)
    with n show ?thesis by (auto simp: MAX_FILE_SIZE_def)
  qed
  have req: "requests (snd (handleBatchFileSelect (tgt\<lparr>files := Some fs\<rparr>) a)) = requests a"
    using f by (cases fs) (simp_all add: handleBatchFileSelect_def)
  show ?thesis
    using batch req
    by (simp add: handleFileSelect_def MAX_FILE_SIZE_def Let_def)
qed

theorem oversized_file_rejected_witness:
  "file_size big > 1610612736 \<and> file_size ok \<le> 1610612736 \<and>
   selectedFile (snd (handleFileSelect (\<lparr>files = None, input_value = []\<rparr>\<lparr>files := Some (big # [])\<rparr>) fresh)) =
     selectedFile fresh \<and>
   requests (snd (handleFileSelect (\<lparr>files = None, input_value = []\<rparr>\<lparr>files := Some (big # [])\<rparr>) fresh)) =
     requests fresh \<and>
   selectedFile (snd (handleFileSelect (\<lparr>files = None, input_value = []\<rparr>\<lparr>files := Some (ok # [])\<rparr>) fresh)) =
     Some ok \<and>
   (\<exists>new. batchFiles (snd (handleBatchFileSelect
              (\<lparr>files = None, input_value = []\<rparr>\<lparr>files := Some [big, ok]\<rparr>) fresh)) =
            batchFiles fresh @ new \<and>
          map item_file new = filter (\<lambda>f. file_size f \<le> 1610612736) [big, ok]) \<and>
   filter (\<lambda>f. file_size f \<le> 1610612736) [big, ok] = [ok]"
proof -
  have h1: "file_size big > 1610612736"
    by (simp add: big_def)
  have h2: "file_size ok \<le> 1610612736"
    by (simp add: ok_def)
  have h3: "filter (\<lambda>f. file_size f \<le> 1610612736) [big, ok] = [ok]"
    by (simp add: big_def ok_def)
  show ?thesis
    using h1 h2 h3
      oversized_file_rejected [where f = big and rest = "[]" and a = fresh
        and tgt = "\<lparr>files = None, input_value = []\<rparr>" and fs = "[big, ok]"]
      oversized_file_rejected [where f = ok and rest = "[]" and a = fresh
        and tgt = "\<lparr>files = None, input_value = []\<rparr>" and fs = "[big, ok]"]
    by blast
qed

subsection \<open>The progress tracker\<close>

lemma Math_round_mono: "x \<le> y \<Longrightarrow> Math_round x \<le> Math_round y"
  by (simp add: Math_round_def round_mono nat_mono)

lemma Math_round_of_nat: "Math_round (of_nat k) = k"
  by (simp add: Math_round_def)

lemma uploadPercent_mono:
  assumes "l1 \<le> l2"
  shows "Math_round ((of_nat l1 / of_nat n) * 90) \<le> Math_round ((of_nat l2 / of_nat n) * 90)"
proof (rule Math_round_mono)
  have "(of_nat l1 :: rat) \<le> of_nat l2" using assms by simp
  then have "(of_nat l1 :: rat) / of_nat n \<le> of_nat l2 / of_nat n"
    by (simp add: divide_right_mono)
  then show "(of_nat l1 :: rat) / of_nat n * 90 \<le> of_nat l2 / of_nat n * 90"
    by (rule mult_right_mono) simp
qed

lemma uploadPercent_le_90:
  assumes "l \<le> n"
  shows "Math_round ((of_nat l / of_nat n) * 90) \<le> 90"
proof -
  have "(of_nat l :: rat) / of_nat n \<le> 1"
    using assms by (cases "n = 0") (simp_all add: divide_le_eq_1)
  then have "(of_nat l :: rat) / of_nat n * 90 \<le> 1 * 90"
    by (rule mult_right_mono) simp
  then have "(of_nat l :: rat) / of_nat n * 90 \<le> of_nat 90"
    by simp
  then have "Math_round ((of_nat l / of_nat n) * 90) \<le> Math_round (of_nat 90)"
    by (rule Math_round_mono)
  then show ?thesis by (simp only: Math_round_of_nat)
qed

lemma tracker_inv_hundred:
  "tracker_inv n seen ph a \<Longrightarrow> percent (batchProgress a) = 100 \<Longrightarrow> seen"
proof (cases ph)
  case (Sending sent)
  assume "tracker_inv n seen ph a" and "percent (batchProgress a) = 100"
  with Sending have "100 \<le> Math_round ((of_nat sent / of_nat n) * 90)" and "sent \<le> n"
    by simp_all
  with uploadPercent_le_90 [of sent n] show ?thesis by simp
next
  case Responded
  assume "tracker_inv n seen ph a" and "percent (batchProgress a) = 100"
  with Responded show ?thesis by (auto simp: idle_progress_def)
next
  case Closed
  assume "tracker_inv n seen ph a" and "percent (batchProgress a) = 100"
  with Closed show ?thesis by (simp add: idle_progress_def)
qed

lemma tracker_inv_le_100:
  "tracker_inv n seen ph a \<Longrightarrow> isActive (batchProgress a) \<Longrightarrow> percent (batchProgress a) \<le> 100"
proof (cases ph)
  case (Sending sent)
  assume "tracker_inv n seen ph a"
  with Sending have "percent (batchProgress a) \<le> Math_round ((of_nat sent / of_nat n) * 90)"
    and "sent \<le> n"
    by simp_all
  with uploadPercent_le_90 [of sent n] show ?thesis by simp
next
  case Responded
  assume "tracker_inv n seen ph a" and "isActive (batchProgress a)"
  with Responded show ?thesis by (auto simp: idle_progress_def)
next
  case Closed
  assume "tracker_inv n seen ph a" and "isActive (batchProgress a)"
  with Closed show ?thesis by (simp add: idle_progress_def)
qed

lemma level_hidden: "\<not> isActive (batchProgress a) \<Longrightarrow> level a = 101"
  by (simp add: level_def displayed_def)

lemma level_active: "isActive (batchProgress a) \<Longrightarrow> level a = percent (batchProgress a)"
  by (simp add: level_def displayed_def)

lemma tracker_step:
  assumes "tracker_inv n seen ph a" and "transport n ph e = Some ph'"
  shows "tracker_inv n (seen \<or> success_response P e) ph' (xhr_step P e a) \<and>
         level a \<le> level (xhr_step P e a)"
proof (cases ph)
  case (Sending sent)
  with assms(1) have inv: "timers a = []" "isActive (batchProgress a)" "sent \<le> n"
    "percent (batchProgress a) \<le> Math_round ((of_nat sent / of_nat n) * 90)"
    by simp_all
  have p90: "percent (batchProgress a) \<le> 90"
    using inv(3,4) uploadPercent_le_90 [of sent n] by simp
  show ?thesis
  proof (cases e)
    case (UploadProgress event)
    with assms(2) Sending have t: "total_bytes event = n" "sent \<le> loaded event" "loaded event \<le> n"
      and ph': "ph' = Sending (loaded event)"
      by (simp_all split: if_splits)
    show ?thesis
    proof (cases "lengthComputable event")
      case True
      with UploadProgress ph' t inv uploadPercent_mono [OF t(2), of n] show ?thesis
        by (simp add: on_progress_def Let_def level_active)
    next
      case False
      with UploadProgress ph' t inv uploadPercent_mono [OF t(2), of n] show ?thesis
        by (simp add: on_progress_def)
    qed
  next
    case (Load status responseText statusText)
    with assms(2) Sending have ph': "ph' = Responded" by simp
    show ?thesis
    proof (cases "status \<ge> 200 \<and> status < 300")
      case False
      then have "on_load P status responseText statusText a =
          a\<lparr>alerts := alerts a @ [''Batch upload failed: '' @ statusText],
            batchProgress := idle_progress, isBatchUploading := False\<rparr>"
        by (auto simp: on_load_def)
      with False Load ph' inv p90 show ?thesis
        by (auto simp: level_active level_hidden idle_progress_def)
    next
      case True
      show ?thesis
      proof (cases "JSON_parse P responseText")
        case None
        with True have "on_load P status responseText statusText a =
            a\<lparr>alerts := alerts a @ [''Upload completed but response parsing failed''],
              batchProgress := idle_progress, isBatchUploading := False\<rparr>"
          by (simp add: on_load_def)
        with None Load ph' inv p90 show ?thesis
          by (auto simp: level_active level_hidden idle_progress_def)
      next
        case (Some r)
        with True have "on_load P status responseText statusText a =
            a\<lparr>batchProgress := \<lparr>percent = 95, stage = ''Queued'', isActive = True\<rparr>,
              timers := timers a @ [ShowComplete r]\<rparr>"
          by (simp add: on_load_def)
        with True Some Load ph' inv p90 show ?thesis
          by (simp add: level_active)
      qed
    qed
  next
    case NetworkFailure
    with assms(2) Sending inv p90 show ?thesis
      by (auto simp: on_error_def level_active level_hidden idle_progress_def)
  next
    case Aborted
    with assms(2) Sending inv p90 show ?thesis
      by (auto simp: on_abort_def level_active level_hidden idle_progress_def)
  next
    case Timeout
    with assms(2) Sending show ?thesis by simp
  qed
next
  case Responded
  with assms(2) have e: "e = Timeout" and ph': "ph' = Responded"
    by (cases e; simp)+
  from assms(1) Responded consider
    (queued) r where "timers a = [ShowComplete r]" "seen" "isActive (batchProgress a)"
      "percent (batchProgress a) = 95"
    | (complete) "timers a = [ResetBatch]" "seen" "isActive (batchProgress a)"
      "percent (batchProgress a) = 100"
    | (stuck) "timers a = []" "seen" "isActive (batchProgress a)"
      "percent (batchProgress a) = 100"
    | (idle) "timers a = []" "batchProgress a = idle_progress"
    by auto
  then show ?thesis
  proof cases
    case queued
    with e ph' show ?thesis
      by (cases "queuedCount r") (simp_all add: show_complete_def Let_def level_active)
  next
    case complete
    with e ph' show ?thesis
      by (simp add: reset_batch_def level_active level_hidden idle_progress_def)
  next
    case stuck
    with e ph' show ?thesis by simp
  next
    case idle
    with e ph' show ?thesis by simp
  qed
next
  case Closed
  with assms(2) show ?thesis by simp
qed

lemma history_not_Nil [simp]: "history P evs a \<noteq> []"
  by (cases evs) simp_all

lemma hd_history [simp]: "hd (history P evs a) = a"
  by (cases evs) simp_all

lemma length_history [simp]: "length (history P evs a) = Suc (length evs)"
  by (induction evs arbitrary: a) simp_all

lemma sorted_hd_le: "sorted xs \<Longrightarrow> y \<in> set xs \<Longrightarrow> hd xs \<le> (y::nat)"
  by (cases xs) auto

lemma tracker_run:
  assumes "tracker_inv n seen ph a" and "transport_run n ph evs \<noteq> None"
  shows "sorted (map level (history P evs a)) \<and>
         (\<forall>k \<le> length evs. percent (batchProgress (history P evs a ! k)) = 100 \<longrightarrow>
              seen \<or> list_ex (success_response P) (take k evs))"
  using assms
proof (induction evs arbitrary: seen ph a)
  case Nil
  then show ?case by (auto dest: tracker_inv_hundred)
next
  case (Cons e es)
  from Cons.prems(2) obtain ph' where ph': "transport n ph e = Some ph'"
    and rest: "transport_run n ph' es \<noteq> None"
    by (auto split: option.splits)
  let ?a' = "xhr_step P e a"
  have inv': "tracker_inv n (seen \<or> success_response P e) ph' ?a'" and le: "level a \<le> level ?a'"
    using tracker_step [OF Cons.prems(1) ph'] by simp_all
  have IH: "sorted (map level (history P es ?a'))"
    "\<forall>k \<le> length es. percent (batchProgress (history P es ?a' ! k)) = 100 \<longrightarrow>
        (seen \<or> success_response P e) \<or> list_ex (success_response P) (take k es)"
    using Cons.IH [OF inv' rest] by simp_all
  have "level a \<le> y" if "y \<in> set (map level (history P es ?a'))" for y
  proof -
    have "hd (map level (history P es ?a')) \<le> y"
      using IH(1) that by (rule sorted_hd_le)
    then show ?thesis using le by (simp add: hd_map)
  qed
  then have s: "sorted (map level (history P (e # es) a))"
    using IH(1) by simp
  have h: "percent (batchProgress (history P (e # es) a ! k)) = 100 \<longrightarrow>
        seen \<or> list_ex (success_response P) (take k (e # es))"
    if "k \<le> length (e # es)" for k
  proof (cases k)
    case 0
    then show ?thesis using tracker_inv_hundred [OF Cons.prems(1)] by simp
  next
    case (Suc j)
    with that IH(2) show ?thesis by auto
  qed
  from s h show ?case by blast
qed

lemma set_map_filter_displayed:
  "p \<in> set (List.map_filter displayed xs) \<Longrightarrow> p \<in> level ` set xs"
proof -
  assume "p \<in> set (List.map_filter displayed xs)"
  then obtain x where x: "x \<in> set xs" and d: "displayed x = Some p"
    by (auto simp: List.map_filter_def)
  from d have "level x = p" by (simp add: level_def)
  with x show ?thesis by blast
qed

lemma sorted_displayed:
  "sorted (map level xs) \<Longrightarrow> sorted (List.map_filter displayed xs)"
proof (induction xs)
  case Nil
  show ?case by (simp add: List.map_filter_def)
next
  case (Cons x xs)
  then have rest: "sorted (List.map_filter displayed xs)"
    and le: "\<forall>y \<in> set xs. level x \<le> level y"
    by simp_all
  show ?case
  proof (cases "displayed x")
    case None
    with rest show ?thesis by (simp add: List.map_filter_def)
  next
    case (Some p)
    then have p: "level x = p" by (simp add: level_def)
    have "p \<le> q" if "q \<in> set (List.map_filter displayed xs)" for q
      using set_map_filter_displayed [OF that] le p by auto
    with rest Some show ?thesis
      by (simp add: List.map_filter_simps)
  qed
qed

lemma handleBatchUpload_started:
  assumes "batchFiles a \<noteq> []" and "\<forall>f \<in> set (batchFiles a). String_trim P (displayName f) \<noteq> []"
  shows "handleBatchUpload P a =
     a\<lparr>isBatchUploading := True,
       batchProgress := \<lparr>percent = 0, stage = ''Preparing'', isActive = True\<rparr>,
       requests := requests a @
            [BulkUpload (map item_file (batchFiles a))
               (map (\<lambda>item. (filename item,
                     \<lparr>displayName = displayName item, documentType = documentType item,
                       documentSource = documentSource item,
                       humanCapabilityDomain = humanCapabilityDomain item,
                       author = author item, publicationDate = publicationDate item,
                       description = description item, allowDownload = True,
                       showInViewer = True\<rparr>)) (batchFiles a))]\<rparr>"
proof -
  have "filter (\<lambda>f. String_trim P (displayName f) = []) (batchFiles a) = []"
    using assms(2) by (simp add: filter_empty_conv)
  with assms(1) show ?thesis
    by (simp add: handleBatchUpload_def)
qed

lemma history_append:
  "history P (xs @ ys) a = butlast (history P xs a) @ history P ys (last (history P xs a))"
  by (induction xs arbitrary: a) simp_all

lemma progress_history:
  assumes "\<forall>event \<in> set ps. lengthComputable event"
  shows "history P (map UploadProgress ps) (a\<lparr>batchProgress := b\<rparr>) =
     a\<lparr>batchProgress := b\<rparr> #
     map (\<lambda>event. a\<lparr>batchProgress :=
            \<lparr>percent = Math_round ((of_nat (loaded event) / of_nat (total_bytes event)) * 90),
              stage = ''Uploading'', isActive = True\<rparr>\<rparr>) ps"
  using assms by (induction ps arbitrary: b) (simp_all add: on_progress_def Let_def)

text \<open>
  Claim C7. \<open>handleBatchUpload\<close> has passed its two checks, with no timer pending, and
  the events that follow are any the transport can deliver for a body of \<open>n\<close> bytes. Then
  the percents displayed, in the order of the state updates, never decrease (the bar is
  rendered only while \<open>isActive\<close>; the closing update, which hides the bar, also sets the
  percent back to 0). And a state whose percent is 100 comes only after a \<open>load\<close> event
  with a status from 200 to 299 and a body that parses: never while the body is sent,
  after an error or after an abort.
\<close>

theorem progress_monotone:
  assumes "batchFiles a \<noteq> []" and "\<forall>f \<in> set (batchFiles a). String_trim P (displayName f) \<noteq> []"
    and "timers a = []" and "transport_run n (Sending 0) evs \<noteq> None"
  shows "sorted (List.map_filter displayed (history P evs (handleBatchUpload P a))) \<and>
         (\<forall>k \<le> length evs.
            percent (batchProgress (history P evs (handleBatchUpload P a) ! k)) = 100 \<longrightarrow>
              list_ex (success_response P) (take k evs))"
proof -
  have "tracker_inv n False (Sending 0) (handleBatchUpload P a)"
    using assms(3) by (simp add: handleBatchUpload_started [OF assms(1,2)] Math_round_def)
  from tracker_run [OF this assms(4), of P] show ?thesis
    by (simp add: sorted_displayed)
qed

lemma success_run_progress:
  "map batchProgress (history demo success_run (handleBatchUpload demo selected)) =
     [\<lparr>percent = 0, stage = ''Preparing'', isActive = True\<rparr>,
      \<lparr>percent = 45, stage = ''Uploading'', isActive = True\<rparr>,
      \<lparr>percent = 90, stage = ''Uploading'', isActive = True\<rparr>,
      \<lparr>percent = 95, stage = ''Queued'', isActive = True\<rparr>,
      \<lparr>percent = 100, stage = ''Complete'', isActive = True\<rparr>,
      \<lparr>percent = 0, stage = [], isActive = False\<rparr>]"
  by (simp add: admin_demo_defs tracker_defs Let_def)

theorem progress_monotone_witness:
  "batchFiles selected \<noteq> [] \<and>
   list_all (\<lambda>f. String_trim demo (displayName f) \<noteq> []) (batchFiles selected) \<and>
   timers selected = [] \<and> transport_run 100 (Sending 0) success_run \<noteq> None \<and>
   sorted (List.map_filter displayed (history demo success_run (handleBatchUpload demo selected))) \<and>
   4 \<le> length success_run \<and>
   percent (batchProgress (history demo success_run (handleBatchUpload demo selected) ! 4)) = 100 \<and>
   list_ex (success_response demo) (take 4 success_run)"
proof -
  have h1: "batchFiles selected \<noteq> []"
    by (simp add: admin_demo_defs)
  have h2: "\<forall>f \<in> set (batchFiles selected). String_trim demo (displayName f) \<noteq> []"
    by (simp add: admin_demo_defs)
  have h3: "timers selected = []"
    by (simp add: admin_demo_defs)
  have h4: "transport_run 100 (Sending 0) success_run \<noteq> None"
    by (simp add: success_run_def)
  have k: "4 \<le> length success_run"
    by (simp add: success_run_def)
  have "map batchProgress (history demo success_run (handleBatchUpload demo selected)) ! 4 =
      \<lparr>percent = 100, stage = ''Complete'', isActive = True\<rparr>"
    by (simp only: success_run_progress) simp
  then have p: "percent (batchProgress (history demo success_run (handleBatchUpload demo selected) ! 4)) = 100"
    using k by (simp add: nth_map)
  show ?thesis
    using h1 h2 h3 h4 k p progress_monotone [OF h1 h2 h3 h4]
    unfolding list_all_iff
    by blast
qed

text \<open>
  Claim C8, which the code does not meet on every success. The response has status 200
  and the body \<open>{}\<close>, which parses. The tracker shows \<open>Uploading\<close>, \<open>Queued\<close> and
  \<open>Complete\<close>; then \<open>result.results.filter\<close> throws at line 529, inside the timer
  callback and so outside the \<open>try\<close> of line 519. The reset of line 533 is never
  scheduled: the tracker stays at 100 and \<open>Complete\<close>, and \<open>isBatchUploading\<close> stays
  true, however many timers expire.
\<close>

theorem completion_without_results:
  "map batchProgress
     (history demo
        [UploadProgress \<lparr>loaded = 50, total_bytes = 100\<rparr>,
         UploadProgress \<lparr>loaded = 100, total_bytes = 100\<rparr>,
         Load 200 ''{}'' ''OK'', Timeout, Timeout, Timeout]
        (handleBatchUpload demo selected)) =
     [\<lparr>percent = 0, stage = ''Preparing'', isActive = True\<rparr>,
      \<lparr>percent = 45, stage = ''Uploading'', isActive = True\<rparr>,
      \<lparr>percent = 90, stage = ''Uploading'', isActive = True\<rparr>,
      \<lparr>percent = 95, stage = ''Queued'', isActive = True\<rparr>,
      \<lparr>percent = 100, stage = ''Complete'', isActive = True\<rparr>,
      \<lparr>percent = 100, stage = ''Complete'', isActive = True\<rparr>,
      \<lparr>percent = 100, stage = ''Complete'', isActive = True\<rparr>] \<and>
   isBatchUploading
     (last (history demo
        [UploadProgress \<lparr>loaded = 50, total_bytes = 100\<rparr>,
         UploadProgress \<lparr>loaded = 100, total_bytes = 100\<rparr>,
         Load 200 ''{}'' ''OK'', Timeout, Timeout, Timeout]
        (handleBatchUpload demo selected))) \<and>
   timers
     (last (history demo
        [UploadProgress \<lparr>loaded = 50, total_bytes = 100\<rparr>,
         UploadProgress \<lparr>loaded = 100, total_bytes = 100\<rparr>,
         Load 200 ''{}'' ''OK'', Timeout, Timeout, Timeout]
        (handleBatchUpload demo selected))) = []"
  by (simp add: admin_demo_defs tracker_defs Let_def)

text \<open>
  The states of \<open>batchProgress\<close> over a successful upload, with the upload percents as
  \<open>Math_round\<close> gives them.
\<close>

lemma progress_states:
  assumes "batchFiles a \<noteq> []" and "\<forall>f \<in> set (batchFiles a). String_trim P (displayName f) \<noteq> []"
    and "timers a = []"
    and "ps \<noteq> []" and "\<forall>event \<in> set ps. lengthComputable event \<and> loaded event \<le> total_bytes event"
    and "200 \<le> status" and "status < 300"
    and "JSON_parse P responseText = Some result" and "queuedCount result = Some c"
  shows "map batchProgress
           (history P (map UploadProgress ps @ [Load status responseText statusText, Timeout, Timeout])
              (handleBatchUpload P a)) =
           \<lparr>percent = 0, stage = ''Preparing'', isActive = True\<rparr> #
           map (\<lambda>event. \<lparr>percent = Math_round ((of_nat (loaded event) / of_nat (total_bytes event)) * 90),
                   stage = ''Uploading'', isActive = True\<rparr>) ps @
           [\<lparr>percent = 95, stage = ''Queued'', isActive = True\<rparr>,
            \<lparr>percent = 100, stage = ''Complete'', isActive = True\<rparr>,
            \<lparr>percent = 0, stage = [], isActive = False\<rparr>] \<and>
         (\<forall>event \<in> set ps.
            Math_round ((of_nat (loaded event) / of_nat (total_bytes event)) * 90) \<le> 90) \<and>
         Math_round ((of_nat 0 / of_nat t) * 90) = 0 \<and>
         (t \<noteq> 0 \<longrightarrow> Math_round ((of_nat t / of_nat t) * 90) = 90)"
proof -
  define a0 where "a0 = handleBatchUpload P a"
  define X where "X = (\<lambda>event::progressEvent. \<lparr>percent = Math_round ((of_nat (loaded event) / of_nat (total_bytes event)) * 90),
                   stage = ''Uploading'', isActive = True\<rparr>)"
  have a0: "a0 = a0\<lparr>batchProgress := \<lparr>percent = 0, stage = ''Preparing'', isActive = True\<rparr>\<rparr>"
    and t0: "timers a0 = []"
    using assms(3) by (simp_all add: a0_def handleBatchUpload_started [OF assms(1,2)])
  have comp: "\<forall>event \<in> set ps. lengthComputable event"
    using assms(5) by simp
  have up: "history P (map UploadProgress ps) a0 =
      a0 # map (\<lambda>event. a0\<lparr>batchProgress := X event\<rparr>) ps"
    using progress_history [OF comp, where P = P and a = a0
        and b = "\<lparr>percent = 0, stage = ''Preparing'', isActive = True\<rparr>"]
    by (simp only: a0 [symmetric] X_def)
  define b where "b = a0\<lparr>batchProgress := X (last ps)\<rparr>"
  have last: "last (history P (map UploadProgress ps) a0) = b"
    using assms(4) by (simp add: up b_def last_map)
  have tb: "timers b = []"
    using t0 by (simp add: b_def)
  have tail: "map batchProgress (history P [Load status responseText statusText, Timeout, Timeout] b) =
      [batchProgress b, \<lparr>percent = 95, stage = ''Queued'', isActive = True\<rparr>,
            \<lparr>percent = 100, stage = ''Complete'', isActive = True\<rparr>,
            \<lparr>percent = 0, stage = [], isActive = False\<rparr>]"
    using assms(6-9) tb
    by (simp add: on_load_def show_complete_def reset_batch_def idle_progress_def Let_def)
  have e1: "map batchProgress (history P (map UploadProgress ps @
            [Load status responseText statusText, Timeout, Timeout]) a0) =
        map batchProgress (butlast (history P (map UploadProgress ps) a0)) @
        map batchProgress (history P [Load status responseText statusText, Timeout, Timeout] b)"
    by (simp only: history_append last map_append)
  have "butlast (history P (map UploadProgress ps) a0) @ [b] = history P (map UploadProgress ps) a0"
    using append_butlast_last_id [of "history P (map UploadProgress ps) a0"] last by simp
  then have "map batchProgress (butlast (history P (map UploadProgress ps) a0) @ [b]) =
        map batchProgress (history P (map UploadProgress ps) a0)"
    by (rule arg_cong)
  then have e2: "map batchProgress (butlast (history P (map UploadProgress ps) a0)) @ [batchProgress b] =
        map batchProgress (history P (map UploadProgress ps) a0)"
    by simp
  have seq: "map batchProgress (history P (map UploadProgress ps @
            [Load status responseText statusText, Timeout, Timeout]) a0) =
        map batchProgress (history P (map UploadProgress ps) a0) @
          [\<lparr>percent = 95, stage = ''Queued'', isActive = True\<rparr>,
            \<lparr>percent = 100, stage = ''Complete'', isActive = True\<rparr>,
            \<lparr>percent = 0, stage = [], isActive = False\<rparr>]"
    by (simp only: e1 tail e2 [symmetric]) simp
  have first: "batchProgress a0 = \<lparr>percent = 0, stage = ''Preparing'', isActive = True\<rparr>"
    by (subst a0) simp
  have one: "map batchProgress (history P (map UploadProgress ps @
            [Load status responseText statusText, Timeout, Timeout]) a0) =
           \<lparr>percent = 0, stage = ''Preparing'', isActive = True\<rparr> # map X ps @
           [\<lparr>percent = 95, stage = ''Queued'', isActive = True\<rparr>,
            \<lparr>percent = 100, stage = ''Complete'', isActive = True\<rparr>,
            \<lparr>percent = 0, stage = [], isActive = False\<rparr>]"
    by (simp add: seq up first comp_def)
  have two: "\<forall>event \<in> set ps.
            Math_round ((of_nat (loaded event) / of_nat (total_bytes event)) * 90) \<le> 90"
    using assms(5) by (blast intro: uploadPercent_le_90)
  have three: "Math_round ((of_nat 0 / of_nat t) * 90) = 0"
    by (simp add: Math_round_def)
  have four: "t \<noteq> 0 \<longrightarrow> Math_round ((of_nat t / of_nat t) * 90) = 90"
    by (simp add: Math_round_def)
  from one two three four show ?thesis
    unfolding a0_def X_def by blast
qed

text \<open>
  The progress scale and the stages when the callback can count the results. After
  \<open>handleBatchUpload\<close> has passed its checks, at least one progress event with a
  computable length, a \<open>load\<close> with a status from 200 to 299 whose body parses to a record
  with a \<open>results\<close> array, and two timers: the stages of \<open>batchProgress\<close> are
  \<open>Preparing\<close>, \<open>Uploading\<close> once per progress event, \<open>Queued\<close>, \<open>Complete\<close> and
  the empty stage of the idle state, in this order; the bar is active in all but the last;
  the percents are 0, one value of at most 90 per progress event, 95, 100 and 0. The
  upload percent is 0 when nothing is sent and 90 when all is sent.
\<close>

theorem progress_scale_and_stages:
  assumes "batchFiles a \<noteq> []" and "\<forall>f \<in> set (batchFiles a). String_trim P (displayName f) \<noteq> []"
    and "timers a = []"
    and "ps \<noteq> []" and "\<forall>event \<in> set ps. lengthComputable event \<and> loaded event \<le> total_bytes event"
    and "200 \<le> status" and "status < 300"
    and "JSON_parse P responseText = Some result" and "queuedCount result = Some c"
  shows "map (\<lambda>x. stage (batchProgress x))
           (history P (map UploadProgress ps @ [Load status responseText statusText, Timeout, Timeout])
              (handleBatchUpload P a)) =
           ''Preparing'' # replicate (length ps) ''Uploading'' @ [''Queued'', ''Complete'', []] \<and>
         map (\<lambda>x. isActive (batchProgress x))
           (history P (map UploadProgress ps @ [Load status responseText statusText, Timeout, Timeout])
              (handleBatchUpload P a)) =
           True # replicate (length ps) True @ [True, True, False] \<and>
         (\<exists>us. map (\<lambda>x. percent (batchProgress x))
                 (history P
                    (map UploadProgress ps @ [Load status responseText statusText, Timeout, Timeout])
                    (handleBatchUpload P a)) =
                 0 # us @ [95, 100, 0] \<and>
               length us = length ps \<and> list_all (\<lambda>p. p \<le> 90) us) \<and>
         Math_round ((of_nat 0 / of_nat t) * 90) = 0 \<and>
         (t \<noteq> 0 \<longrightarrow> Math_round ((of_nat t / of_nat t) * 90) = 90)"
proof -
  let ?H = "history P (map UploadProgress ps @ [Load status responseText statusText, Timeout, Timeout])
              (handleBatchUpload P a)"
  let ?up = "\<lambda>event. Math_round ((of_nat (loaded event) / of_nat (total_bytes event)) * 90)"
  have st: "map batchProgress ?H =
           \<lparr>percent = 0, stage = ''Preparing'', isActive = True\<rparr> #
           map (\<lambda>event. \<lparr>percent = ?up event, stage = ''Uploading'', isActive = True\<rparr>) ps @
           [\<lparr>percent = 95, stage = ''Queued'', isActive = True\<rparr>,
            \<lparr>percent = 100, stage = ''Complete'', isActive = True\<rparr>,
            \<lparr>percent = 0, stage = [], isActive = False\<rparr>]"
    and le: "\<forall>event \<in> set ps. ?up event \<le> 90"
    and z: "Math_round ((of_nat 0 / of_nat t) * 90) = 0"
    and f: "t \<noteq> 0 \<longrightarrow> Math_round ((of_nat t / of_nat t) * 90) = 90"
    using progress_states [OF assms, of statusText t] by blast+
  have "map (\<lambda>x. stage (batchProgress x)) ?H = map stage (map batchProgress ?H)"
    by (simp add: comp_def)
  then have one: "map (\<lambda>x. stage (batchProgress x)) ?H =
      ''Preparing'' # replicate (length ps) ''Uploading'' @ [''Queued'', ''Complete'', []]"
    by (simp only: st) (simp add: comp_def map_replicate_const)
  have "map (\<lambda>x. isActive (batchProgress x)) ?H = map isActive (map batchProgress ?H)"
    by (simp add: comp_def)
  then have two: "map (\<lambda>x. isActive (batchProgress x)) ?H =
      True # replicate (length ps) True @ [True, True, False]"
    by (simp only: st) (simp add: comp_def map_replicate_const)
  have "map (\<lambda>x. percent (batchProgress x)) ?H = map percent (map batchProgress ?H)"
    by (simp add: comp_def)
  then have "map (\<lambda>x. percent (batchProgress x)) ?H = 0 # map ?up ps @ [95, 100, 0]"
    by (simp only: st) (simp add: comp_def)
  moreover have "list_all (\<lambda>p. p \<le> 90) (map ?up ps)"
    using le by (simp add: list_all_iff)
  ultimately have three: "\<exists>us. map (\<lambda>x. percent (batchProgress x)) ?H = 0 # us @ [95, 100, 0] \<and>
               length us = length ps \<and> list_all (\<lambda>p. p \<le> 90) us"
    by (intro exI [of _ "map ?up ps"]) simp
  from one two three z f show ?thesis by blast
qed

theorem progress_scale_and_stages_witness:
  "batchFiles selected \<noteq> [] \<and>
   list_all (\<lambda>f. String_trim demo (displayName f) \<noteq> []) (batchFiles selected) \<and>
   timers selected = [] \<and>
   list_all (\<lambda>event. lengthComputable event \<and> loaded event \<le> total_bytes event)
     [\<lparr>loaded = 50, total_bytes = 100\<rparr>, \<lparr>loaded = 100, total_bytes = 100\<rparr>] \<and>
   JSON_parse demo upload_response_text = Some upload_response \<and>
   queuedCount upload_response = Some 1 \<and>
   map (\<lambda>x. stage (batchProgress x))
     (history demo
        (map UploadProgress [\<lparr>loaded = 50, total_bytes = 100\<rparr>, \<lparr>loaded = 100, total_bytes = 100\<rparr>] @
         [Load 200 upload_response_text ''OK'', Timeout, Timeout])
        (handleBatchUpload demo selected)) =
     ''Preparing'' #
     replicate (length [\<lparr>loaded = 50, total_bytes = 100\<rparr>, \<lparr>loaded = 100, total_bytes = 100\<rparr>])
       ''Uploading'' @ [''Queued'', ''Complete'', []] \<and>
   map (\<lambda>x. isActive (batchProgress x))
     (history demo
        (map UploadProgress [\<lparr>loaded = 50, total_bytes = 100\<rparr>, \<lparr>loaded = 100, total_bytes = 100\<rparr>] @
         [Load 200 upload_response_text ''OK'', Timeout, Timeout])
        (handleBatchUpload demo selected)) =
     True #
     replicate (length [\<lparr>loaded = 50, total_bytes = 100\<rparr>, \<lparr>loaded = 100, total_bytes = 100\<rparr>])
       True @ [True, True, False] \<and>
   (\<exists>us. map (\<lambda>x. percent (batchProgress x))
           (history demo
              (map UploadProgress
                 [\<lparr>loaded = 50, total_bytes = 100\<rparr>, \<lparr>loaded = 100, total_bytes = 100\<rparr>] @
               [Load 200 upload_response_text ''OK'', Timeout, Timeout])
              (handleBatchUpload demo selected)) =
           0 # us @ [95, 100, 0] \<and>
         length us = length [\<lparr>loaded = 50, total_bytes = 100\<rparr>, \<lparr>loaded = 100, total_bytes = 100\<rparr>] \<and>
         list_all (\<lambda>p. p \<le> 90) us) \<and>
   Math_round ((of_nat 0 / of_nat 100) * 90) = 0 \<and>
   Math_round ((of_nat 100 / of_nat 100) * 90) = 90"
proof -
  have h1: "batchFiles selected \<noteq> []"
    by (simp add: admin_demo_defs)
  have h2: "\<forall>f \<in> set (batchFiles selected). String_trim demo (displayName f) \<noteq> []"
    by (simp add: admin_demo_defs)
  have h3: "timers selected = []"
    by (simp add: admin_demo_defs)
  have h4: "[\<lparr>loaded = 50, total_bytes = 100\<rparr>, \<lparr>loaded = 100, total_bytes = 100\<rparr>] \<noteq> []"
    by simp
  have h5: "\<forall>event \<in> set [\<lparr>loaded = 50, total_bytes = 100\<rparr>, \<lparr>loaded = 100, total_bytes = 100\<rparr>].
      lengthComputable event \<and> loaded event \<le> total_bytes event"
    by (simp add: lengthComputable_def)
  have h6: "(200::nat) \<le> 200" and h7: "(200::nat) < 300"
    by simp_all
  have h8: "JSON_parse demo upload_response_text = Some upload_response"
    by (simp add: demo_defs)
  have h9: "queuedCount upload_response = Some 1"
    by (simp add: queuedCount_def upload_response_def)
  have z: "(100::nat) \<noteq> 0"
    by simp
  show ?thesis
    using h1 h2 h3 h5 h8 h9 z
      progress_scale_and_stages [OF h1 h2 h3 h4 h5 h6 h7 h8 h9, where statusText = "''OK''"
        and t = 100]
    unfolding list_all_iff
    by blast
qed

end
